theory Spec2Isabelle
  imports Main "HOL-Library.Word"
begin

unbundle bit_operations_syntax

section \<open>The item bitmap of pg\_check (src/item-bitmap.c)\<close>

text \<open>
  A shallow embedding of \<^verbatim>\<open>item-bitmap.c\<close>.  A value of the C type \<^verbatim>\<open>int\<close>
  is an integer from \<open>-2^31\<close> to \<open>2^31 - 1\<close>, and a sum that leaves this range wraps
  around (\<open>wrap32\<close>; PostgreSQL and its extensions are compiled with
  \<^verbatim>\<open>-fwrapv\<close>); \<^verbatim>\<open>char\<close> is an 8-bit word that is sign-extended when promoted to
  \<^verbatim>\<open>int\<close> (the x86-64 ABI); \<^verbatim>\<open>uint32\<close> is a 32-bit word.  Every failed \<^verbatim>\<open>assert\<close> and every array access outside the
  allocated block is a value of the type \<open>error\<close>.  Warnings written with
  \<^verbatim>\<open>elog(WARNING, ...)\<close> do not change the control flow and are left out.
\<close>

subsection \<open>C arithmetic and array access\<close>

datatype error = AssertionFailed | OutOfBounds | InvalidShift | InvalidPointer

definition bindE :: "error + 'a \<Rightarrow> ('a \<Rightarrow> error + 'b) \<Rightarrow> error + 'b" where
  "bindE m f = (case m of Inl e \<Rightarrow> Inl e | Inr x \<Rightarrow> f x)"

text \<open>The result of an \<^verbatim>\<open>int\<close> operation whose exact value is \<open>x\<close>.\<close>

definition INT_MAX :: int where
  "INT_MAX = 2147483647"

definition wrap32 :: "int \<Rightarrow> int" where
  "wrap32 x = (x + 2147483648) mod 4294967296 - 2147483648"

text \<open>C's \<^verbatim>\<open>/\<close> and \<^verbatim>\<open>%\<close> truncate towards zero.\<close>

definition c_div :: "int \<Rightarrow> int \<Rightarrow> int" where
  "c_div a b = sgn a * sgn b * (\<bar>a\<bar> div \<bar>b\<bar>)"

definition c_mod :: "int \<Rightarrow> int \<Rightarrow> int" where
  "c_mod a b = a - b * c_div a b"

text \<open>\<^verbatim>\<open>xs[i]\<close> as an rvalue and \<^verbatim>\<open>xs[i] = v\<close>, on a block of \<open>length xs\<close> cells.\<close>

definition rd :: "'a list \<Rightarrow> int \<Rightarrow> error + 'a" where
  "rd xs i = (if 0 \<le> i \<and> i < int (length xs) then Inr (xs ! nat i) else Inl OutOfBounds)"

definition wr :: "'a list \<Rightarrow> int \<Rightarrow> 'a \<Rightarrow> error + 'a list" where
  "wr xs i v = (if 0 \<le> i \<and> i < int (length xs) then Inr (xs[nat i := v]) else Inl OutOfBounds)"

text \<open>
  \<^verbatim>\<open>palloc(n * sizeof cell)\<close> returns a block of \<open>n\<close> cells that are not initialised:
  their contents are whatever \<open>junk\<close> says.  \<^verbatim>\<open>repalloc\<close> keeps the old cells and adds
  uninitialised ones.  \<^verbatim>\<open>memset(xs + off, v, n)\<close> writes \<open>n\<close> cells.
\<close>

definition palloc :: "(nat \<Rightarrow> 'a) \<Rightarrow> int \<Rightarrow> 'a list" where
  "palloc junk n = map junk [0..<nat n]"

definition repalloc :: "(nat \<Rightarrow> 'a) \<Rightarrow> 'a list \<Rightarrow> int \<Rightarrow> 'a list" where
  "repalloc junk xs n = take (nat n) xs @ map junk [length xs..<nat n]"

definition memset :: "'a list \<Rightarrow> int \<Rightarrow> 'a \<Rightarrow> int \<Rightarrow> error + 'a list" where
  "memset xs off v n =
     (if 0 \<le> off \<and> 0 \<le> n \<and> off + n \<le> int (length xs)
      then Inr (take (nat off) xs @ replicate (nat n) v @ drop (nat (off + n)) xs)
      else Inl OutOfBounds)"

subsection \<open>The bitmap\<close>

text \<open>
  \<^verbatim>\<open>item_bitmap\<close>, with the two buffers the structure owns held by value:
  \<open>pages\<close> is the block behind \<^verbatim>\<open>int *pages\<close> (running sums of items per page),
  \<open>data\<close> the block behind \<^verbatim>\<open>char *data\<close>.
\<close>

record item_bitmap =
  npages :: int
  nbytes :: int
  maxBytes :: int
  pages :: "int list"
  data :: "8 word list"

text \<open>
  What the host supplies: the constant \<^verbatim>\<open>MaxHeapTuplesPerPage\<close> of the PostgreSQL
  headers, and the contents of freshly allocated memory.
\<close>

record host =
  MaxHeapTuplesPerPage :: int
  junk_int :: "nat \<Rightarrow> int"
  junk_char :: "nat \<Rightarrow> 8 word"

definition PALLOC_CHUNK :: int where
  "PALLOC_CHUNK = 1024"

definition bitmap_init :: "host \<Rightarrow> int \<Rightarrow> error + item_bitmap" where
  "bitmap_init h n =
     (if \<not> n \<ge> 0 then Inl AssertionFailed
      else
        let mb = PALLOC_CHUNK * (c_div (c_div n PALLOC_CHUNK) 8 + 1) in
        bindE (memset (palloc (junk_char h) mb) 0 0 mb) (\<lambda>d.
          Inr \<lparr>npages = n, nbytes = 0, maxBytes = mb,
               pages = palloc (junk_int h) n, data = d\<rparr>))"

definition bitmap_reset :: "item_bitmap \<Rightarrow> error + item_bitmap" where
  "bitmap_reset bitmap =
     bindE (memset (data bitmap) 0 0 (maxBytes bitmap)) (\<lambda>d. Inr (bitmap\<lparr>data := d\<rparr>))"

text \<open>
  Modelled from the spec: the macro \<^verbatim>\<open>GetBitmapIndex\<close> is declared in
  \<^verbatim>\<open>item-bitmap.h\<close>, which is not among the sources.  The spec gives the global bit
  index of item \<open>j\<close> on page \<open>p\<close> as
  \<^verbatim>\<open>(p == 0 ? 0 : page_item_offsets[p-1]) + j\<close>.
\<close>

definition GetBitmapIndex :: "item_bitmap \<Rightarrow> int \<Rightarrow> int \<Rightarrow> error + int" where
  "GetBitmapIndex p page item =
     (if page = 0 then Inr item
      else bindE (rd (pages p) (page - 1)) (\<lambda>c. Inr (wrap32 (c + item))))"

text \<open>\<^verbatim>\<open>1 << n\<close> on \<^verbatim>\<open>int\<close>: undefined for a negative \<open>n\<close>.\<close>

definition shl1 :: "int \<Rightarrow> error + int" where
  "shl1 n = (if 0 \<le> n \<and> n < 31 then Inr (push_bit (nat n) 1) else Inl InvalidShift)"

definition bitmap_add_page :: "host \<Rightarrow> item_bitmap \<Rightarrow> int \<Rightarrow> int \<Rightarrow> error + item_bitmap" where
  "bitmap_add_page h bitmap page items =
     (if \<not> page \<ge> 0 then Inl AssertionFailed
      else if \<not> page < npages bitmap then Inl AssertionFailed
      else if \<not> items \<ge> 0 then Inl AssertionFailed
      else if \<not> items \<le> MaxHeapTuplesPerPage h then Inl AssertionFailed
      else
        bindE (if page = 0 then Inr items
               else bindE (rd (pages bitmap) (page - 1)) (\<lambda>c. Inr (wrap32 (items + c)))) (\<lambda>v.
        bindE (wr (pages bitmap) page v) (\<lambda>ps.
          let b1 = bitmap\<lparr>pages := ps, nbytes := c_div (wrap32 (v + 7)) 8\<rparr> in
          if nbytes b1 > maxBytes b1 then
            let len = maxBytes b1;
                b2 = b1\<lparr>maxBytes := wrap32 (maxBytes b1 + PALLOC_CHUNK)\<rparr>;
                b3 = b2\<lparr>data := repalloc (junk_char h) (data b2) (maxBytes b2)\<rparr>
            in bindE (memset (data b3) len 0 PALLOC_CHUNK) (\<lambda>d. Inr (b3\<lparr>data := d\<rparr>))
          else Inr b1)))"

definition bitmap_set_item :: "item_bitmap \<Rightarrow> int \<Rightarrow> int \<Rightarrow> bool \<Rightarrow> error + bool \<times> item_bitmap" where
  "bitmap_set_item bitmap page item state =
     bindE (GetBitmapIndex bitmap page item) (\<lambda>idx.
       let byteIdx = c_div idx 8; bitIdx = c_mod idx 8 in
       if page \<ge> npages bitmap then Inr (False, bitmap)
       else if byteIdx > nbytes bitmap then Inr (False, bitmap)
       else
         bindE (rd (pages bitmap) page) (\<lambda>cnt.
           if item \<ge> cnt then Inr (False, bitmap)
           else
             bindE (shl1 bitIdx) (\<lambda>mask.
             bindE (rd (data bitmap) byteIdx) (\<lambda>b.
             bindE (wr (data bitmap) byteIdx
                      (if state then b OR word_of_int mask
                       else b AND word_of_int (NOT mask))) (\<lambda>d.
               Inr (True, bitmap\<lparr>data := d\<rparr>))))))"

definition bitmap_get_item :: "item_bitmap \<Rightarrow> int \<Rightarrow> int \<Rightarrow> error + bool" where
  "bitmap_get_item bitmap page item =
     bindE (GetBitmapIndex bitmap page item) (\<lambda>idx.
       let byteIdx = c_div idx 8; bitIdx = c_mod idx 8 in
       if page \<ge> npages bitmap then Inr False
       else if byteIdx > nbytes bitmap then Inr False
       else
         bindE (rd (pages bitmap) page) (\<lambda>cnt.
           if item \<ge> cnt then Inr False
           else
             bindE (rd (data bitmap) byteIdx) (\<lambda>b.
               if sint b = 0 then Inr False
               else bindE (shl1 bitIdx) (\<lambda>mask. Inr (mask \<noteq> 0)))))"

subsection \<open>Pages of the host\<close>

text \<open>
  Modelled from the spec: the page format and its macros (\<^verbatim>\<open>PageGetMaxOffsetNumber\<close>,
  \<^verbatim>\<open>ItemIdIsUsed\<close>, \<^verbatim>\<open>PageGetItem\<close>, \<^verbatim>\<open>HeapTupleHeaderIsHeapOnly\<close>,
  \<^verbatim>\<open>BlockIdGetBlockNumber\<close>) belong to the PostgreSQL headers, which are not among
  the sources.  The spec gives a page as its maximum slot number and, for each slot, a
  used/unused/redirected state and the byte offset of the tuple; a heap tuple shows
  whether it is heap-only, an index tuple the block number and the 1-based position
  it points to.  The header and the raw page passed to the population functions are
  the same page.
\<close>

datatype lp_state = LP_UNUSED | LP_NORMAL | LP_REDIRECT | LP_DEAD

record ItemIdData =
  lp_off :: nat
  lp_flags :: lp_state

record ItemPointerData =
  ip_blkid :: "32 word"
  ip_posid :: "16 word"

record page_image =
  pd_linp :: "ItemIdData list"
  heap_only_at :: "nat \<Rightarrow> bool"
  t_tid_at :: "nat \<Rightarrow> ItemPointerData"

definition PageGetMaxOffsetNumber :: "page_image \<Rightarrow> int" where
  "PageGetMaxOffsetNumber pg = int (length (pd_linp pg))"

definition ItemIdIsUsed :: "ItemIdData \<Rightarrow> bool" where
  "ItemIdIsUsed itemId = (lp_flags itemId \<noteq> LP_UNUSED)"

definition HeapTupleHeaderIsHeapOnly :: "page_image \<Rightarrow> ItemIdData \<Rightarrow> bool" where
  "HeapTupleHeaderIsHeapOnly pg itemId = heap_only_at pg (lp_off itemId)"


subsection \<open>Populating the bitmap from pages\<close>

text \<open>\<^verbatim>\<open>for (item = 0; item < ntuples; item++)\<close>, the state threaded through the body.\<close>

primrec for_items :: "(nat \<Rightarrow> 's \<Rightarrow> error + 's) \<Rightarrow> nat list \<Rightarrow> 's \<Rightarrow> error + 's" where
  "for_items body [] s = Inr s"
| "for_items body (i # rest) s = bindE (body i s) (for_items body rest)"

text \<open>The body of the first loop of \<^verbatim>\<open>bitmap_add_heap_items\<close>.\<close>

definition heap_mark :: "page_image \<Rightarrow> int \<Rightarrow> nat \<Rightarrow> item_bitmap \<times> int \<Rightarrow> error + item_bitmap \<times> int" where
  "heap_mark pg page item s =
     (case s of (bitmap, nerrs) \<Rightarrow>
        bindE (rd (pd_linp pg) (int item)) (\<lambda>lp.
          if ItemIdIsUsed lp then
            bindE (bitmap_set_item bitmap page (int item) True) (\<lambda>(ok, b).
              Inr (b, if \<not> ok then nerrs + 1 else nerrs))
          else Inr (bitmap, nerrs)))"

text \<open>The body of the second loop, which removes the HOT chains.\<close>

definition heap_unmark :: "page_image \<Rightarrow> int \<Rightarrow> nat \<Rightarrow> item_bitmap \<times> int \<Rightarrow> error + item_bitmap \<times> int" where
  "heap_unmark pg page item s =
     (case s of (bitmap, nerrs) \<Rightarrow>
        bindE (rd (pd_linp pg) (int item)) (\<lambda>lp.
          if HeapTupleHeaderIsHeapOnly pg lp then
            bindE (bitmap_get_item bitmap page (int item)) (\<lambda>g.
              if g then
                bindE (bitmap_set_item bitmap page (int item) False) (\<lambda>(ok, b).
                  Inr (b, if \<not> ok then nerrs + 1 else nerrs))
              else Inr (bitmap, nerrs))
          else Inr (bitmap, nerrs)))"

definition bitmap_add_heap_items :: "host \<Rightarrow> item_bitmap \<Rightarrow> page_image \<Rightarrow> int \<Rightarrow> error + int \<times> item_bitmap" where
  "bitmap_add_heap_items h bitmap pg page =
     (let ntuples = PageGetMaxOffsetNumber pg in
      bindE (bitmap_add_page h bitmap page ntuples) (\<lambda>b0.
      bindE (for_items (heap_mark pg page) [0..<nat ntuples] (b0, 0)) (\<lambda>s1.
      bindE (for_items (heap_unmark pg page) [0..<nat ntuples] s1) (\<lambda>(b, nerrs).
        Inr (nerrs, b)))))"



subsection \<open>Comparing bitmaps\<close>

text \<open>
  When the page counts differ, the last entries of the two offset tables are read and
  the larger one is returned.  When they agree, the two entries are only compared to
  decide whether a warning is logged; their values do not reach the result, and the
  comparison is left out with the warning.
\<close>

text \<open>\<^verbatim>\<open>for (j = 0; j < 8; j++) if (diff & (1 << j)) ndiff++;\<close>\<close>

primrec compare_bits :: "8 word \<Rightarrow> nat list \<Rightarrow> int \<Rightarrow> int" where
  "compare_bits diff [] ndiff = ndiff"
| "compare_bits diff (j # js) ndiff =
     compare_bits diff js (if sint diff AND push_bit j 1 \<noteq> 0 then ndiff + 1 else ndiff)"

primrec compare_bytes :: "item_bitmap \<Rightarrow> item_bitmap \<Rightarrow> nat list \<Rightarrow> int \<Rightarrow> error + int" where
  "compare_bytes a b [] ndiff = Inr ndiff"
| "compare_bytes a b (i # rest) ndiff =
     bindE (rd (data a) (int i)) (\<lambda>x.
     bindE (rd (data b) (int i)) (\<lambda>y.
       let diff = x XOR y in
       compare_bytes a b rest (if diff \<noteq> 0 then compare_bits diff [0..<8] ndiff else ndiff)))"

definition bitmap_compare :: "item_bitmap \<Rightarrow> item_bitmap \<Rightarrow> error + int" where
  "bitmap_compare bitmap_a bitmap_b =
     (if npages bitmap_a \<noteq> npages bitmap_b then
        bindE (rd (pages bitmap_a) (npages bitmap_a - 1)) (\<lambda>x.
        bindE (rd (pages bitmap_b) (npages bitmap_b - 1)) (\<lambda>y.
          Inr (if x > y then x else y)))
      else compare_bytes bitmap_a bitmap_b [0..<nat (nbytes bitmap_a)] 0)"

subsection \<open>Base64\<close>

definition base64_digits :: string where
  "base64_digits = ''ABCDEFGHIJKLMNOPQRSTUVWXYZabcdefghijklmnopqrstuvwxyz0123456789+/''"

definition digit64 :: "32 word \<Rightarrow> char" where
  "digit64 w = base64_digits ! unat (w AND 0x3f)"

text \<open>
  The loop of \<^verbatim>\<open>base64\<close> over the bytes still to read; \<open>result\<close> holds the
  characters \<^verbatim>\<open>result[0..k-1]\<close> written so far.  The buffer of
  \<^verbatim>\<open>4*((n+2)/3) + 1\<close> characters has room for all of them and the terminator when
  \<open>n\<close> is not negative; for a negative \<open>n\<close> only the terminator is written, for which
  there must be one character.  \<^verbatim>\<open>data[i] << (pos << 3)\<close> shifts the sign-extended
  \<^verbatim>\<open>char\<close>, in two's complement.
\<close>

fun base64_loop :: "8 word list \<Rightarrow> 32 word \<Rightarrow> int \<Rightarrow> string \<Rightarrow> 32 word \<times> int \<times> string" where
  "base64_loop [] buf pos result = (buf, pos, result)"
| "base64_loop (d # ds) buf pos result =
     (let buf1 = buf OR push_bit (nat (pos * 8)) (scast d);
          pos1 = pos - 1
      in if pos1 < 0 then
           base64_loop ds 0 2
             (result @ [digit64 (drop_bit 18 buf1), digit64 (drop_bit 12 buf1),
                        digit64 (drop_bit 6 buf1), digit64 buf1])
         else base64_loop ds buf1 pos1 result)"

definition base64 :: "8 word list \<Rightarrow> int \<Rightarrow> error + string" where
  "base64 dat n =
     (if n > int (length dat) then Inl OutOfBounds
      else if 4 * c_div (n + 2) 3 + 1 < 1 then Inl OutOfBounds
      else
        case base64_loop (take (nat n) dat) 0 2 [] of (buf, pos, result) \<Rightarrow>
          Inr ((if pos \<noteq> 2 then
                  result @ [digit64 (drop_bit 18 buf), digit64 (drop_bit 12 buf),
                            if pos = 0 then digit64 (drop_bit 6 buf) else CHR 0x00]
                else result) @ [CHR 0x00]))"

text \<open>The C string held by a character buffer: the characters before the first NUL.\<close>

definition c_string :: "string \<Rightarrow> string" where
  "c_string buf = takeWhile (\<lambda>c. c \<noteq> CHR 0x00) buf"

text \<open>
  What the loop and the final \<^verbatim>\<open>if (pos != 2)\<close> leave in \<^verbatim>\<open>result\<close> before
  the terminator, group by group; proved equal to the loop below
  (\<open>base64_eq_groups\<close>).
\<close>

fun base64_groups :: "8 word list \<Rightarrow> string" where
  "base64_groups [] = []"
| "base64_groups [a] =
     (let buf = push_bit 16 (scast a) :: 32 word
      in [digit64 (drop_bit 18 buf), digit64 (drop_bit 12 buf), CHR 0x00])"
| "base64_groups [a, b] =
     (let buf = push_bit 16 (scast a) OR push_bit 8 (scast b) :: 32 word
      in [digit64 (drop_bit 18 buf), digit64 (drop_bit 12 buf), digit64 (drop_bit 6 buf)])"
| "base64_groups (a # b # c # rest) =
     (let buf = push_bit 16 (scast a) OR push_bit 8 (scast b) OR scast c :: 32 word
      in [digit64 (drop_bit 18 buf), digit64 (drop_bit 12 buf), digit64 (drop_bit 6 buf),
          digit64 buf])
     @ base64_groups rest"

text \<open>
  For comparison, the encoding in the spec's words, ``standard base64 alphabet, padded
  encoding of the raw byte buffer'' (RFC 4648): three bytes give four digits of six
  bits each, most significant first; a last group of one or two bytes is filled with
  zero bits and padded with \<open>=\<close> to four characters.
\<close>

definition sextet :: "8 word \<Rightarrow> char" where
  "sextet w = base64_digits ! unat w"

fun standard_base64 :: "8 word list \<Rightarrow> string" where
  "standard_base64 [] = []"
| "standard_base64 [a] =
     [sextet (drop_bit 2 a), sextet (push_bit 4 (a AND 3)), CHR ''='', CHR ''='']"
| "standard_base64 [a, b] =
     [sextet (drop_bit 2 a), sextet (push_bit 4 (a AND 3) OR drop_bit 4 b),
      sextet (push_bit 2 (b AND 15)), CHR ''='']"
| "standard_base64 (a # b # c # rest) =
     [sextet (drop_bit 2 a), sextet (push_bit 4 (a AND 3) OR drop_bit 4 b),
      sextet (push_bit 2 (b AND 15) OR drop_bit 6 c), sextet (c AND 63)]
     @ standard_base64 rest"

subsection \<open>Bitmaps in memory\<close>

text \<open>
  For \<^verbatim>\<open>bitmap_copy\<close> the pointers matter.  Memory is a map from addresses to
  allocated blocks; an \<^verbatim>\<open>item_bitmap *\<close> is the address of a structure whose
  \<open>s_pages\<close> and \<open>s_data\<close> are the addresses of its buffers.  \<^verbatim>\<open>palloc\<close> hands out
  the next unused address; \<open>0\<close> is \<^verbatim>\<open>NULL\<close>.
\<close>

type_synonym addr = nat

record item_bitmap_struct =
  s_npages :: int
  s_nbytes :: int
  s_maxBytes :: int
  s_pages :: addr
  s_data :: addr

datatype block = Struct item_bitmap_struct | Ints "int list" | Chars "8 word list"

record memory =
  blocks :: "addr \<Rightarrow> block option"
  brk :: addr

definition mem_alloc :: "memory \<Rightarrow> block \<Rightarrow> addr \<times> memory" where
  "mem_alloc m blk = (brk m, m\<lparr>blocks := (blocks m)(brk m \<mapsto> blk), brk := Suc (brk m)\<rparr>)"

definition memcpy :: "'a list \<Rightarrow> 'a list \<Rightarrow> int \<Rightarrow> error + 'a list" where
  "memcpy dst src n =
     (if 0 \<le> n \<and> n \<le> int (length src) \<and> n \<le> int (length dst)
      then Inr (take (nat n) src @ drop (nat n) dst)
      else Inl OutOfBounds)"

definition bitmap_copy :: "host \<Rightarrow> memory \<Rightarrow> addr \<Rightarrow> error + addr \<times> memory" where
  "bitmap_copy h m src =
     (if src = 0 then Inl AssertionFailed
      else
        case blocks m src of
          Some (Struct s) \<Rightarrow>
            (case blocks m (s_pages s) of
               Some (Ints src_pages) \<Rightarrow>
                 (let (bitmap, m1) = mem_alloc m
                        (Struct \<lparr>s_npages = s_npages s, s_nbytes = s_nbytes s,
                                 s_maxBytes = s_maxBytes s, s_pages = 0, s_data = 0\<rparr>) in
                  bindE (memcpy (palloc (junk_int h) (s_npages s)) src_pages (s_npages s)) (\<lambda>ps.
                  let (pg, m2) = mem_alloc m1 (Ints ps) in
                  bindE (memset (palloc (junk_char h) (s_maxBytes s)) 0 0 (s_maxBytes s)) (\<lambda>d.
                  let (dt, m3) = mem_alloc m2 (Chars d) in
                  Inr (bitmap,
                       m3\<lparr>blocks := (blocks m3)(bitmap \<mapsto>
                            Struct \<lparr>s_npages = s_npages s, s_nbytes = s_nbytes s,
                                     s_maxBytes = s_maxBytes s, s_pages = pg, s_data = dt\<rparr>)\<rparr>))))
             | _ \<Rightarrow> Inl InvalidPointer)
        | _ \<Rightarrow> Inl InvalidPointer)"

text \<open>The bitmap an \<^verbatim>\<open>item_bitmap *\<close> denotes, and an update made through the pointer.\<close>

definition load :: "memory \<Rightarrow> addr \<Rightarrow> item_bitmap option" where
  "load m p =
     (case blocks m p of
        Some (Struct s) \<Rightarrow>
          (case (blocks m (s_pages s), blocks m (s_data s)) of
             (Some (Ints ps), Some (Chars d)) \<Rightarrow>
               Some \<lparr>npages = s_npages s, nbytes = s_nbytes s, maxBytes = s_maxBytes s,
                     pages = ps, data = d\<rparr>
           | _ \<Rightarrow> None)
      | _ \<Rightarrow> None)"

definition store :: "memory \<Rightarrow> addr \<Rightarrow> item_bitmap \<Rightarrow> memory" where
  "store m p v =
     (case blocks m p of
        Some (Struct s) \<Rightarrow>
          m\<lparr>blocks := (blocks m)
               (s_pages s \<mapsto> Ints (pages v),
                s_data s \<mapsto> Chars (data v),
                p \<mapsto> Struct (s\<lparr>s_npages := npages v, s_nbytes := nbytes v,
                                 s_maxBytes := maxBytes v\<rparr>))\<rparr>
      | _ \<Rightarrow> m)"

definition through :: "memory \<Rightarrow> addr \<Rightarrow> (item_bitmap \<Rightarrow> error + 'r \<times> item_bitmap) \<Rightarrow> error + 'r \<times> memory" where
  "through m p f =
     (case load m p of
        None \<Rightarrow> Inl InvalidPointer
      | Some v \<Rightarrow> bindE (f v) (\<lambda>(r, v'). Inr (r, store m p v')))"

subsection \<open>Notions used to state the properties\<close>

text \<open>The buffers have the sizes the structure records.\<close>

definition wf_bitmap :: "item_bitmap \<Rightarrow> bool" where
  "wf_bitmap b \<longleftrightarrow>
     0 \<le> npages b \<and> length (pages b) = nat (npages b) \<and>
     0 \<le> maxBytes b \<and> length (data b) = nat (maxBytes b)"

text \<open>Bit \<open>i\<close> of the buffer, least significant bit first within each byte.\<close>

definition bit_at :: "item_bitmap \<Rightarrow> nat \<Rightarrow> bool" where
  "bit_at b i = bit (data b ! (i div 8)) (i mod 8)"

text \<open>
  The bounds checks of \<^verbatim>\<open>bitmap_set_item\<close> and \<^verbatim>\<open>bitmap_get_item\<close> accept
  (page, item), whose global bit index is \<open>idx\<close>, and the byte lies in the buffer.
\<close>

definition accepts :: "item_bitmap \<Rightarrow> int \<Rightarrow> int \<Rightarrow> nat \<Rightarrow> bool" where
  "accepts b page item idx \<longleftrightarrow>
     GetBitmapIndex b page item = Inr (int idx) \<and> page < npages b \<and>
     int (idx div 8) \<le> nbytes b \<and> (\<exists>cnt. rd (pages b) page = Inr cnt \<and> item < cnt) \<and>
     idx div 8 < length (data b)"

text \<open>The page layout and the size of the buffer are the same in both bitmaps.\<close>

definition same_layout :: "item_bitmap \<Rightarrow> item_bitmap \<Rightarrow> bool" where
  "same_layout b b' \<longleftrightarrow>
     npages b' = npages b \<and> nbytes b' = nbytes b \<and> maxBytes b' = maxBytes b \<and>
     pages b' = pages b \<and> length (data b') = length (data b)"

text \<open>
  The global index of the first item of page \<open>page\<close>: the item total of the pages
  before it.
\<close>

definition first_item :: "item_bitmap \<Rightarrow> int \<Rightarrow> int" where
  "first_item b page = (if page = 0 then 0 else pages b ! nat (page - 1))"










text \<open>
  The calling protocol of \<^verbatim>\<open>bitmap_add_page\<close> (``needs to be called for pages
  0,1,2,3,...npages (not randomly)''): pages \<open>page\<close>, \<open>page + 1\<close>, ... are registered with
  the item counts of the list.  \<open>register_trace\<close> keeps every bitmap on the way.
\<close>

primrec register_pages :: "host \<Rightarrow> item_bitmap \<Rightarrow> int \<Rightarrow> int list \<Rightarrow> error + item_bitmap" where
  "register_pages h b page [] = Inr b"
| "register_pages h b page (c # cs) =
     bindE (bitmap_add_page h b page c) (\<lambda>b'. register_pages h b' (page + 1) cs)"

primrec register_trace :: "host \<Rightarrow> item_bitmap \<Rightarrow> int \<Rightarrow> int list \<Rightarrow> error + item_bitmap list" where
  "register_trace h b page [] = Inr [b]"
| "register_trace h b page (c # cs) =
     bindE (bitmap_add_page h b page c) (\<lambda>b'.
     bindE (register_trace h b' (page + 1) cs) (\<lambda>bs. Inr (b # bs)))"

text \<open>
  The state in which page \<open>page\<close> is the next one to register: the pages before it
  have been registered in order, so the entry before \<open>page\<close> holds their item total
  (an \<^verbatim>\<open>int\<close>) and \<open>nbytes\<close> was computed from it.  The buffer is never smaller than
  one chunk.
\<close>

definition next_page :: "item_bitmap \<Rightarrow> int \<Rightarrow> bool" where
  "next_page b page \<longleftrightarrow>
     wf_bitmap b \<and> PALLOC_CHUNK \<le> maxBytes b \<and> 0 \<le> page \<and>
     (page = 0 \<or>
      - INT_MAX - 1 \<le> pages b ! nat (page - 1) \<and> pages b ! nat (page - 1) \<le> INT_MAX \<and>
      nbytes b = c_div (wrap32 (pages b ! nat (page - 1) + 7)) 8 \<and> nbytes b \<le> maxBytes b)"

text \<open>A host with 8 kB pages, for the concrete runs below.\<close>

definition host_8k :: host where
  "host_8k = \<lparr>MaxHeapTuplesPerPage = 291, junk_int = (\<lambda>_. 0), junk_char = (\<lambda>_. 0)\<rparr>"

text \<open>
  A bitmap of 30 pages in which the first 28 pages are registered with 291 items each
  and bits 0 and 2 are set: the next page of 291 items does not fit the first chunk.
\<close>

definition full_chunk :: item_bitmap where
  "full_chunk =
     \<lparr>npages = 30, nbytes = 1019, maxBytes = 1024,
      pages = map (\<lambda>i. 291 * (int i + 1)) [0..<28] @ [0, 0],
      data = (replicate 1024 0)[0 := 5]\<rparr>"

text \<open>
  A heap page with three used slots; only the tuple of slot 2 (at offset 300) is
  heap-only.  \<open>three_marked\<close> is a bitmap of one page with three items, all bits set.
\<close>

definition hot_page :: page_image where
  "hot_page =
     \<lparr>pd_linp = [\<lparr>lp_off = 100, lp_flags = LP_NORMAL\<rparr>,
                 \<lparr>lp_off = 200, lp_flags = LP_NORMAL\<rparr>,
                 \<lparr>lp_off = 300, lp_flags = LP_NORMAL\<rparr>],
      heap_only_at = (\<lambda>off. off = 300),
      t_tid_at = (\<lambda>off. \<lparr>ip_blkid = 0, ip_posid = 0\<rparr>)\<rparr>"

definition three_marked :: item_bitmap where
  "three_marked =
     \<lparr>npages = 1, nbytes = 1, maxBytes = 1024, pages = [3], data = (replicate 1024 0)[0 := 7]\<rparr>"

text \<open>
  A heap page with three used slots on which the tuples of slots 0 and 2 (at offsets
  100 and 300) are heap-only and the tuple of slot 1 is not.
\<close>

definition both_hot_page :: page_image where
  "both_hot_page =
     \<lparr>pd_linp = [\<lparr>lp_off = 100, lp_flags = LP_NORMAL\<rparr>,
                 \<lparr>lp_off = 200, lp_flags = LP_NORMAL\<rparr>,
                 \<lparr>lp_off = 300, lp_flags = LP_NORMAL\<rparr>],
      heap_only_at = (\<lambda>off. off = 100 \<or> off = 300),
      t_tid_at = (\<lambda>off. \<lparr>ip_blkid = 0, ip_posid = 0\<rparr>)\<rparr>"

text \<open>
  A bitmap of two pages on which page 0 is registered with ten items, and a heap page
  with four slots: slot 1 is unused, and the tuple of slot 2 (at offset 300) is
  heap-only.
\<close>

definition ten_items :: item_bitmap where
  "ten_items =
     \<lparr>npages = 2, nbytes = 2, maxBytes = 1024, pages = [10, 0], data = replicate 1024 0\<rparr>"

definition chain_page :: page_image where
  "chain_page =
     \<lparr>pd_linp = [\<lparr>lp_off = 100, lp_flags = LP_NORMAL\<rparr>,
                 \<lparr>lp_off = 0, lp_flags = LP_UNUSED\<rparr>,
                 \<lparr>lp_off = 300, lp_flags = LP_NORMAL\<rparr>,
                 \<lparr>lp_off = 400, lp_flags = LP_NORMAL\<rparr>],
      heap_only_at = (\<lambda>off. off = 300),
      t_tid_at = (\<lambda>off. \<lparr>ip_blkid = 0, ip_posid = 0\<rparr>)\<rparr>"


section \<open>Basic facts\<close>

lemma bindE_Inr [simp]: "bindE (Inr x) f = f x"
  by (simp add: bindE_def)

lemma bindE_Inl [simp]: "bindE (Inl e) f = Inl e"
  by (simp add: bindE_def)

lemma bindE_eq_Inr: "bindE m f = Inr y \<longleftrightarrow> (\<exists>x. m = Inr x \<and> f x = Inr y)"
  by (cases m) simp_all

lemma wrap32_id: "- 2147483648 \<le> x \<Longrightarrow> x \<le> 2147483647 \<Longrightarrow> wrap32 x = x"
  by (simp add: wrap32_def)

lemma wrap32_range: "- 2147483648 \<le> wrap32 x" "wrap32 x \<le> 2147483647"
proof -
  have "0 \<le> (x + 2147483648) mod 4294967296" "(x + 2147483648) mod 4294967296 < 4294967296"
    by simp_all
  then show "- 2147483648 \<le> wrap32 x" "wrap32 x \<le> 2147483647"
    unfolding wrap32_def by linarith+
qed

lemma wrap32_add_right: "wrap32 (a + wrap32 b) = wrap32 (a + b)"
proof -
  have "(a + ((b + 2147483648) mod 4294967296 - 2147483648) + 2147483648) mod 4294967296 =
      (a + (b + 2147483648) mod 4294967296) mod 4294967296"
    by (simp add: algebra_simps)
  also have "\<dots> = (a + (b + 2147483648)) mod 4294967296"
    by (rule mod_add_right_eq)
  finally show ?thesis
    by (simp add: wrap32_def algebra_simps)
qed

lemma wrap32_numeral [simp]: "wrap32 (numeral k) =
    (numeral k + 2147483648) mod 4294967296 - 2147483648"
  by (simp add: wrap32_def)

lemma wrap32_0 [simp]: "wrap32 0 = 0"
  by (simp add: wrap32_def)

lemma c_div_nonneg: "0 \<le> a \<Longrightarrow> c_div a 8 = a div 8"
  by (cases "a = 0") (simp_all add: c_div_def)

lemma c_mod_nonneg: "0 \<le> a \<Longrightarrow> c_mod a 8 = a mod 8"
  by (simp add: c_mod_def c_div_nonneg minus_mult_div_eq_mod)

lemma rd_in: "0 \<le> i \<Longrightarrow> i < int (length xs) \<Longrightarrow> rd xs i = Inr (xs ! nat i)"
  by (simp add: rd_def)

lemma wr_in: "0 \<le> i \<Longrightarrow> i < int (length xs) \<Longrightarrow> wr xs i v = Inr (xs[nat i := v])"
  by (simp add: wr_def)

lemma rd_eq_Inr: "rd xs i = Inr v \<longleftrightarrow> 0 \<le> i \<and> i < int (length xs) \<and> v = xs ! nat i"
  by (auto simp add: rd_def)

lemma memset_palloc: "0 \<le> n \<Longrightarrow> memset (palloc j n) 0 v n = Inr (replicate (nat n) v)"
  by (simp add: memset_def palloc_def)

lemma memset_repalloc:
  "0 \<le> len \<Longrightarrow> length xs = nat len \<Longrightarrow> 0 \<le> c \<Longrightarrow>
   memset (repalloc j xs (len + c)) len v c = Inr (xs @ replicate (nat c) v)"
  by (simp add: memset_def repalloc_def nat_add_distrib)

lemma bitmap_init_eq:
  assumes n: "0 \<le> n"
  shows "bitmap_init h n =
    Inr \<lparr>npages = n, nbytes = 0, maxBytes = PALLOC_CHUNK * (n div PALLOC_CHUNK div 8 + 1),
         pages = map (junk_int h) [0..<nat n],
         data = replicate (nat (PALLOC_CHUNK * (n div PALLOC_CHUNK div 8 + 1))) 0\<rparr>"
proof -
  have d: "c_div (c_div n PALLOC_CHUNK) 8 = n div PALLOC_CHUNK div 8"
    using n by (simp add: c_div_def PALLOC_CHUNK_def sgn_if zdiv_eq_0_iff pos_imp_zdiv_nonneg_iff)
  have m: "0 \<le> PALLOC_CHUNK * (n div PALLOC_CHUNK div 8 + 1)"
    using n by (simp add: PALLOC_CHUNK_def pos_imp_zdiv_nonneg_iff)
  show ?thesis
    using n by (simp add: bitmap_init_def Let_def d memset_palloc [OF m]) (simp add: palloc_def)
qed

lemma c_div_wrap32_less: "c_div (wrap32 x) 8 < 268435456"
proof (cases "0 \<le> wrap32 x")
  case True
  with wrap32_range(2) [of x] show ?thesis
    by (simp add: c_div_nonneg)
next
  case False
  then have "c_div (wrap32 x) 8 \<le> 0"
    by (simp add: c_div_def sgn_if mult_le_0_iff pos_imp_zdiv_nonneg_iff)
  then show ?thesis by simp
qed

lemma bitmap_add_page_eq:
  assumes "wf_bitmap b" "0 \<le> page" "page < npages b" "0 \<le> items"
    "items \<le> MaxHeapTuplesPerPage h"
  shows "bitmap_add_page h b page items =
    (let v = (if page = 0 then items else wrap32 (items + pages b ! nat (page - 1)));
         ps = (pages b)[nat page := v]
     in Inr (if c_div (wrap32 (v + 7)) 8 > maxBytes b
             then b\<lparr>pages := ps, nbytes := c_div (wrap32 (v + 7)) 8,
                     maxBytes := maxBytes b + PALLOC_CHUNK,
                     data := data b @ replicate (nat PALLOC_CHUNK) 0\<rparr>
             else b\<lparr>pages := ps, nbytes := c_div (wrap32 (v + 7)) 8\<rparr>))"
proof -
  have g: "wrap32 (maxBytes b + PALLOC_CHUNK) = maxBytes b + PALLOC_CHUNK"
    if "maxBytes b < c_div (wrap32 x) 8" for x
    using that c_div_wrap32_less [of x] assms(1)
    by (intro wrap32_id) (simp_all add: wf_bitmap_def PALLOC_CHUNK_def)
  have r: "page \<noteq> 0 \<Longrightarrow> rd (pages b) (page - 1) = Inr (pages b ! nat (page - 1))"
    using assms by (intro rd_in) (auto simp add: wf_bitmap_def)
  have w: "wr (pages b) page v = Inr ((pages b)[nat page := v])" for v
    using assms by (intro wr_in) (auto simp add: wf_bitmap_def)
  have m: "memset (repalloc (junk_char h) (data b) (maxBytes b + PALLOC_CHUNK))
             (maxBytes b) 0 PALLOC_CHUNK = Inr (data b @ replicate (nat PALLOC_CHUNK) 0)"
    using assms by (intro memset_repalloc) (auto simp add: wf_bitmap_def PALLOC_CHUNK_def)
  show ?thesis
    using assms by (simp add: bitmap_add_page_def Let_def r w m g)
qed

lemma bitmap_set_item_in:
  assumes "GetBitmapIndex b page item = Inr idx" "0 \<le> idx" "page < npages b"
    "idx div 8 \<le> nbytes b" "rd (pages b) page = Inr cnt" "item < cnt"
    "idx div 8 < int (length (data b))"
  shows "bitmap_set_item b page item st =
    Inr (True, b\<lparr>data := (data b)[nat (idx div 8) :=
        (if st then data b ! nat (idx div 8) OR push_bit (nat (idx mod 8)) 1
         else data b ! nat (idx div 8) AND NOT (push_bit (nat (idx mod 8)) 1))]\<rparr>)"
proof -
  have s: "shl1 (idx mod 8) = Inr (push_bit (nat (idx mod 8)) 1)"
    by (simp add: shl1_def)
  have d: "0 \<le> idx div 8"
    using assms(2) by (simp add: pos_imp_zdiv_nonneg_iff)
  show ?thesis
    using assms d
    by (simp add: bitmap_set_item_def Let_def c_div_nonneg c_mod_nonneg s rd_in wr_in
        of_int_push_bit of_int_not_eq flip: not_le)
qed

lemma push_bit_1_int_neq_0: "push_bit n (1::int) \<noteq> 0"
  by (simp add: push_bit_eq_mult)

lemma bitmap_get_item_in:
  assumes "GetBitmapIndex b page item = Inr idx" "0 \<le> idx" "page < npages b"
    "idx div 8 \<le> nbytes b" "rd (pages b) page = Inr cnt" "item < cnt"
    "idx div 8 < int (length (data b))"
  shows "bitmap_get_item b page item = Inr (data b ! nat (idx div 8) \<noteq> 0)"
proof -
  have s: "shl1 (idx mod 8) = Inr (push_bit (nat (idx mod 8)) 1)"
    by (simp add: shl1_def)
  have d: "0 \<le> idx div 8"
    using assms(2) by (simp add: pos_imp_zdiv_nonneg_iff)
  show ?thesis
    using assms d
    by (simp add: bitmap_get_item_def Let_def c_div_nonneg c_mod_nonneg s rd_in
        push_bit_1_int_neq_0 signed_eq_0_iff flip: not_le)
qed

section \<open>Bounds checks of the accessors\<close>

text \<open>
  Claim C2 says that \<^verbatim>\<open>bitmap_set_item\<close> and \<^verbatim>\<open>bitmap_get_item\<close> return false,
  and leave the buffer as it is, when \<open>page \<ge> npages\<close> or when the item number is
  not below the number of items on that page.  The code compares the item number
  with \<^verbatim>\<open>pages[page]\<close>, the running sum, although its warning reads ``page has only
  %d items''.  Run on a bitmap of two pages with 10 items each: item 12 of page 1
  does not exist, yet the call returns true and sets bit 22 of the buffer.
\<close>

theorem set_item_accepts_foreign_item:
  "bitmap_init host_8k 2 =
     Inr \<lparr>npages = 2, nbytes = 0, maxBytes = 1024, pages = [0, 0], data = replicate 1024 0\<rparr> \<and>
   bitmap_add_page host_8k
     \<lparr>npages = 2, nbytes = 0, maxBytes = 1024, pages = [0, 0], data = replicate 1024 0\<rparr> 0 10 =
     Inr \<lparr>npages = 2, nbytes = 2, maxBytes = 1024, pages = [10, 0], data = replicate 1024 0\<rparr> \<and>
   bitmap_add_page host_8k
     \<lparr>npages = 2, nbytes = 2, maxBytes = 1024, pages = [10, 0], data = replicate 1024 0\<rparr> 1 10 =
     Inr \<lparr>npages = 2, nbytes = 3, maxBytes = 1024, pages = [10, 20], data = replicate 1024 0\<rparr> \<and>
   bitmap_set_item
     \<lparr>npages = 2, nbytes = 3, maxBytes = 1024, pages = [10, 20], data = replicate 1024 0\<rparr>
     1 12 True =
     Inr (True, \<lparr>npages = 2, nbytes = 3, maxBytes = 1024, pages = [10, 20],
                 data = (replicate 1024 0)[2 := 64]\<rparr>) \<and>
   (replicate 1024 (0 :: 8 word))[2 := 64] \<noteq> replicate 1024 0"
proof (intro conjI)
  show "bitmap_init host_8k 2 =
     Inr \<lparr>npages = 2, nbytes = 0, maxBytes = 1024, pages = [0, 0], data = replicate 1024 0\<rparr>"
    by (simp add: bitmap_init_eq PALLOC_CHUNK_def host_8k_def numeral_2_eq_2)
  show "bitmap_add_page host_8k
     \<lparr>npages = 2, nbytes = 0, maxBytes = 1024, pages = [0, 0], data = replicate 1024 0\<rparr> 0 10 =
     Inr \<lparr>npages = 2, nbytes = 2, maxBytes = 1024, pages = [10, 0], data = replicate 1024 0\<rparr>"
    by (simp add: bitmap_add_page_eq wf_bitmap_def host_8k_def c_div_nonneg)
  show "bitmap_add_page host_8k
     \<lparr>npages = 2, nbytes = 2, maxBytes = 1024, pages = [10, 0], data = replicate 1024 0\<rparr> 1 10 =
     Inr \<lparr>npages = 2, nbytes = 3, maxBytes = 1024, pages = [10, 20], data = replicate 1024 0\<rparr>"
    by (simp add: bitmap_add_page_eq wf_bitmap_def host_8k_def c_div_nonneg)
  show "bitmap_set_item
     \<lparr>npages = 2, nbytes = 3, maxBytes = 1024, pages = [10, 20], data = replicate 1024 0\<rparr>
     1 12 True =
     Inr (True, \<lparr>npages = 2, nbytes = 3, maxBytes = 1024, pages = [10, 20],
                 data = (replicate 1024 0)[2 := 64]\<rparr>)"
    by (simp add: bitmap_set_item_in [where idx = 22 and cnt = 20] GetBitmapIndex_def rd_in)
  have "(replicate 1024 (0 :: 8 word))[2 := 64] ! 2 \<noteq> replicate 1024 0 ! 2"
    by simp
  then show "(replicate 1024 (0 :: 8 word))[2 := 64] \<noteq> replicate 1024 0"
    by metis
qed

section \<open>The bit test of \<^verbatim>\<open>bitmap_get_item\<close>\<close>

text \<open>
  Claim C3 says that \<^verbatim>\<open>bitmap_get_item\<close> returns true exactly when the bit at
  the global bit index of (page, item) is 1.  The code returns
  \<^verbatim>\<open>data[byteIdx] && (1 << bitIdx)\<close>, which is true as soon as the byte is not
  zero.  Run on a bitmap of one page with two items after setting item 0 only: the
  bit of item 1 (global index 1) is 0, and \<^verbatim>\<open>bitmap_get_item\<close> returns true for it.
\<close>

theorem get_item_reads_whole_byte:
  "bitmap_init host_8k 1 =
     Inr \<lparr>npages = 1, nbytes = 0, maxBytes = 1024, pages = [0], data = replicate 1024 0\<rparr> \<and>
   bitmap_add_page host_8k
     \<lparr>npages = 1, nbytes = 0, maxBytes = 1024, pages = [0], data = replicate 1024 0\<rparr> 0 2 =
     Inr \<lparr>npages = 1, nbytes = 1, maxBytes = 1024, pages = [2], data = replicate 1024 0\<rparr> \<and>
   bitmap_set_item
     \<lparr>npages = 1, nbytes = 1, maxBytes = 1024, pages = [2], data = replicate 1024 0\<rparr>
     0 0 True =
     Inr (True, \<lparr>npages = 1, nbytes = 1, maxBytes = 1024, pages = [2],
                 data = (replicate 1024 0)[0 := 1]\<rparr>) \<and>
   bitmap_get_item
     \<lparr>npages = 1, nbytes = 1, maxBytes = 1024, pages = [2],
      data = (replicate 1024 0)[0 := 1]\<rparr> 0 1 = Inr True \<and>
   GetBitmapIndex
     \<lparr>npages = 1, nbytes = 1, maxBytes = 1024, pages = [2],
      data = (replicate 1024 0)[0 := 1]\<rparr> 0 1 = Inr 1 \<and>
   \<not> bit_at
     \<lparr>npages = 1, nbytes = 1, maxBytes = 1024, pages = [2],
      data = (replicate 1024 0)[0 := 1]\<rparr> 1"
proof (intro conjI)
  show "bitmap_init host_8k 1 =
     Inr \<lparr>npages = 1, nbytes = 0, maxBytes = 1024, pages = [0], data = replicate 1024 0\<rparr>"
    by (simp add: bitmap_init_eq PALLOC_CHUNK_def host_8k_def)
  show "bitmap_add_page host_8k
     \<lparr>npages = 1, nbytes = 0, maxBytes = 1024, pages = [0], data = replicate 1024 0\<rparr> 0 2 =
     Inr \<lparr>npages = 1, nbytes = 1, maxBytes = 1024, pages = [2], data = replicate 1024 0\<rparr>"
    by (simp add: bitmap_add_page_eq wf_bitmap_def host_8k_def c_div_nonneg)
  show "bitmap_set_item
     \<lparr>npages = 1, nbytes = 1, maxBytes = 1024, pages = [2], data = replicate 1024 0\<rparr>
     0 0 True =
     Inr (True, \<lparr>npages = 1, nbytes = 1, maxBytes = 1024, pages = [2],
                 data = (replicate 1024 0)[0 := 1]\<rparr>)"
    by (simp add: bitmap_set_item_in [where idx = 0 and cnt = 2] GetBitmapIndex_def rd_in)
  show "bitmap_get_item
     \<lparr>npages = 1, nbytes = 1, maxBytes = 1024, pages = [2],
      data = (replicate 1024 0)[0 := 1]\<rparr> 0 1 = Inr True"
    by (simp add: bitmap_get_item_in [where idx = 1 and cnt = 2] GetBitmapIndex_def rd_in)
  show "GetBitmapIndex
     \<lparr>npages = 1, nbytes = 1, maxBytes = 1024, pages = [2],
      data = (replicate 1024 0)[0 := 1]\<rparr> 0 1 = Inr 1"
    by (simp add: GetBitmapIndex_def)
  show "\<not> bit_at
     \<lparr>npages = 1, nbytes = 1, maxBytes = 1024, pages = [2],
      data = (replicate 1024 0)[0 := 1]\<rparr> 1"
    by (simp add: bit_at_def)
qed

section \<open>Comparing bitmaps with different page counts\<close>

lemma bitmap_init_0: "bitmap_init h 0 =
   Inr \<lparr>npages = 0, nbytes = 0, maxBytes = 1024, pages = [], data = replicate 1024 0\<rparr>"
  by (simp add: bitmap_init_eq PALLOC_CHUNK_def)

lemma rd_Nil: "rd [] i = Inl OutOfBounds"
  by (simp add: rd_def)

lemma bindE_OutOfBounds: "bindE m (\<lambda>x. Inl OutOfBounds) = Inl OutOfBounds \<longleftrightarrow> m = Inl OutOfBounds \<or> (\<exists>x. m = Inr x)"
  by (cases m) auto

lemma rd_cases: "rd xs i = Inl OutOfBounds \<or> (\<exists>x. rd xs i = Inr x)"
  by (simp add: rd_def)

text \<open>
  Claim C10: when the page counts differ, \<^verbatim>\<open>bitmap_compare\<close> reads the entry
  \<open>npages - 1\<close> of each offset table and returns the larger one.  For tables of
  \<open>npages\<close> entries the two reads are inside the tables exactly when both page counts are
  at least 1; for the bitmap \<^verbatim>\<open>bitmap_init(0)\<close>, whose table is empty, the read is
  outside the table, whichever argument it is.
\<close>

theorem compare_page_count_mismatch:
  "(npages a \<noteq> npages b \<and> length (pages a) = nat (npages a) \<and>
    length (pages b) = nat (npages b) \<longrightarrow>
      bitmap_compare a b =
        (if 1 \<le> npages a \<and> 1 \<le> npages b
         then Inr (max (pages a ! nat (npages a - 1)) (pages b ! nat (npages b - 1)))
         else Inl OutOfBounds)) \<and>
   (\<exists>e. bitmap_init h 0 = Inr e \<and> npages e = 0 \<and> pages e = [] \<and>
      (npages c \<noteq> 0 \<longrightarrow>
         bitmap_compare e c = Inl OutOfBounds \<and> bitmap_compare c e = Inl OutOfBounds))"
proof (intro conjI impI)
  assume h: "npages a \<noteq> npages b \<and> length (pages a) = nat (npages a) \<and>
    length (pages b) = nat (npages b)"
  show "bitmap_compare a b =
        (if 1 \<le> npages a \<and> 1 \<le> npages b
         then Inr (max (pages a ! nat (npages a - 1)) (pages b ! nat (npages b - 1)))
         else Inl OutOfBounds)"
  proof (cases "1 \<le> npages a")
    case False
    then have "rd (pages a) (npages a - 1) = Inl OutOfBounds"
      by (simp add: rd_def)
    with h False show ?thesis
      by (simp add: bitmap_compare_def)
  next
    case a: True
    then have ra: "rd (pages a) (npages a - 1) = Inr (pages a ! nat (npages a - 1))"
      using h by (intro rd_in) auto
    show ?thesis
    proof (cases "1 \<le> npages b")
      case False
      then have "rd (pages b) (npages b - 1) = Inl OutOfBounds"
        by (simp add: rd_def)
      with h False ra show ?thesis
        by (simp add: bitmap_compare_def)
    next
      case True
      then have "rd (pages b) (npages b - 1) = Inr (pages b ! nat (npages b - 1))"
        using h by (intro rd_in) auto
      with h a True ra show ?thesis
        by (simp add: bitmap_compare_def max_def)
    qed
  qed
next
  let ?e = "\<lparr>npages = 0, nbytes = 0, maxBytes = 1024, pages = [], data = replicate 1024 0\<rparr>"
  have 1: "bitmap_compare ?e c = Inl OutOfBounds" if "npages c \<noteq> 0"
    using that by (simp add: bitmap_compare_def rd_Nil)
  have 2: "bitmap_compare c ?e = Inl OutOfBounds" if "npages c \<noteq> 0"
    using that rd_cases [of "pages c" "npages c - 1"]
    by (auto simp add: bitmap_compare_def rd_Nil)
  show "\<exists>e. bitmap_init h 0 = Inr e \<and> npages e = 0 \<and> pages e = [] \<and>
      (npages c \<noteq> 0 \<longrightarrow>
         bitmap_compare e c = Inl OutOfBounds \<and> bitmap_compare c e = Inl OutOfBounds)"
    using 1 2 by (intro exI [of _ ?e]) (simp add: bitmap_init_0)
qed

theorem compare_page_count_mismatch_witness:
  "bitmap_compare
     \<lparr>npages = 1, nbytes = 1, maxBytes = 1024, pages = [5], data = replicate 1024 0\<rparr>
     \<lparr>npages = 2, nbytes = 2, maxBytes = 1024, pages = [3, 9], data = replicate 1024 0\<rparr> = Inr 9 \<and>
   bitmap_init host_8k 0 =
     Inr \<lparr>npages = 0, nbytes = 0, maxBytes = 1024, pages = [], data = replicate 1024 0\<rparr> \<and>
   bitmap_compare
     \<lparr>npages = 0, nbytes = 0, maxBytes = 1024, pages = [], data = replicate 1024 0\<rparr>
     \<lparr>npages = 2, nbytes = 2, maxBytes = 1024, pages = [3, 9], data = replicate 1024 0\<rparr> =
     Inl OutOfBounds \<and>
   bitmap_compare
     \<lparr>npages = 2, nbytes = 2, maxBytes = 1024, pages = [3, 9], data = replicate 1024 0\<rparr>
     \<lparr>npages = 0, nbytes = 0, maxBytes = 1024, pages = [], data = replicate 1024 0\<rparr> =
     Inl OutOfBounds"
  using compare_page_count_mismatch [of
      "\<lparr>npages = 1, nbytes = 1, maxBytes = 1024, pages = [5], data = replicate 1024 0\<rparr>"
      "\<lparr>npages = 2, nbytes = 2, maxBytes = 1024, pages = [3, 9], data = replicate 1024 0\<rparr>"
      host_8k
      "\<lparr>npages = 2, nbytes = 2, maxBytes = 1024, pages = [3, 9], data = replicate 1024 0\<rparr>"]
  by (auto simp add: bitmap_init_0)

section \<open>The offset table after registering the pages in order\<close>

lemma wf_bitmap_add_page:
  assumes "wf_bitmap b" "0 \<le> page" "page < npages b" "0 \<le> items"
    "items \<le> MaxHeapTuplesPerPage h"
  shows "\<exists>b'. bitmap_add_page h b page items = Inr b' \<and> wf_bitmap b' \<and>
    npages b' = npages b \<and>
    pages b' = (pages b)[nat page :=
       (if page = 0 then items else wrap32 (items + pages b ! nat (page - 1)))]"
  using assms
  by (simp add: bitmap_add_page_eq Let_def) (simp add: wf_bitmap_def PALLOC_CHUNK_def nat_add_distrib)

lemma register_pages_nth:
  assumes "wf_bitmap b" "0 \<le> k" "k + int (length cs) \<le> npages b"
    "\<forall>c\<in>set cs. 0 \<le> c \<and> c \<le> MaxHeapTuplesPerPage h \<and> c \<le> INT_MAX"
  shows "\<exists>b'. register_pages h b k cs = Inr b' \<and> wf_bitmap b' \<and> npages b' = npages b \<and>
    (\<forall>j < nat k. pages b' ! j = pages b ! j) \<and>
    (\<forall>i < length cs. pages b' ! (nat k + i) =
        wrap32 ((if k = 0 then 0 else pages b ! nat (k - 1)) + sum_list (take (Suc i) cs)))"
  using assms
proof (induction cs arbitrary: b k)
  case Nil
  then show ?case by simp
next
  case (Cons c cs)
  let ?base = "if k = 0 then 0 else pages b ! nat (k - 1)"
  from Cons.prems have c: "0 \<le> c" "c \<le> MaxHeapTuplesPerPage h" and k: "k < npages b"
    and ci: "c \<le> INT_MAX"
    by auto
  have v: "(if k = 0 then c else wrap32 (c + pages b ! nat (k - 1))) = wrap32 (?base + c)"
    using c(1) ci by (simp add: wrap32_id INT_MAX_def add.commute)
  from wf_bitmap_add_page [OF Cons.prems(1,2) k c]
  obtain b1 where b1: "bitmap_add_page h b k c = Inr b1" "wf_bitmap b1" "npages b1 = npages b"
    "pages b1 = (pages b)[nat k := wrap32 (?base + c)]"
    unfolding v by blast
  have len: "nat k < length (pages b)"
    using Cons.prems(1,2) k by (simp add: wf_bitmap_def)
  have "\<exists>b'. register_pages h b1 (k + 1) cs = Inr b' \<and> wf_bitmap b' \<and> npages b' = npages b1 \<and>
    (\<forall>j < nat (k + 1). pages b' ! j = pages b1 ! j) \<and>
    (\<forall>i < length cs. pages b' ! (nat (k + 1) + i) =
        wrap32 ((if k + 1 = 0 then 0 else pages b1 ! nat (k + 1 - 1)) + sum_list (take (Suc i) cs)))"
    using Cons.prems b1 by (intro Cons.IH) auto
  then obtain b' where b': "register_pages h b1 (k + 1) cs = Inr b'" "wf_bitmap b'"
    "npages b' = npages b1"
    "\<And>j. j < nat (k + 1) \<Longrightarrow> pages b' ! j = pages b1 ! j"
    "\<And>i. i < length cs \<Longrightarrow> pages b' ! (nat (k + 1) + i) =
        wrap32 (pages b1 ! nat k + sum_list (take (Suc i) cs))"
    using Cons.prems(2) by auto
  have nk: "nat (k + 1) = Suc (nat k)"
    using Cons.prems(2) by simp
  have low: "pages b' ! j = pages b ! j" if "j < nat k" for j
    using that b'(4) [of j] b1(4) nk by simp
  have at: "pages b1 ! nat k = wrap32 (?base + c)"
    using b1(4) len by simp
  have up: "pages b' ! (nat k + i) = wrap32 (?base + sum_list (take (Suc i) (c # cs)))"
    if "i < length (c # cs)" for i
  proof (cases i)
    case 0
    then show ?thesis using b'(4) [of "nat k"] nk at by simp
  next
    case (Suc i')
    with that have "pages b' ! (nat k + i) =
        wrap32 (sum_list (take (Suc i') cs) + wrap32 (?base + c))"
      using b'(5) [of i'] nk at by (simp add: add.commute)
    also have "\<dots> = wrap32 (sum_list (take (Suc i') cs) + (?base + c))"
      by (rule wrap32_add_right)
    finally show ?thesis
      using Suc by (simp add: add_ac)
  qed
  show ?case
    using b1(1,3) b'(1,2,3) low up by simp
qed

lemma sum_list_take_mono:
  assumes "\<forall>c\<in>set cs. (0::int) \<le> c" "i \<le> j"
  shows "sum_list (take i cs) \<le> sum_list (take j cs)"
proof -
  have "take j cs = take i cs @ take (j - i) (drop i cs)"
    using assms(2) by (metis le_add_diff_inverse take_add)
  moreover have "0 \<le> sum_list (take (j - i) (drop i cs))"
    using assms(1) by (intro sum_list_nonneg) (auto dest!: in_set_takeD in_set_dropD)
  ultimately show ?thesis by simp
qed

lemma member_le_sum_list:
  assumes "\<forall>c\<in>set cs. (0::int) \<le> c" "x \<in> set cs"
  shows "x \<le> sum_list cs"
  using assms by (induction cs) (auto simp add: sum_list_nonneg add_increasing add_increasing2)

text \<open>
  Claim C4 says that after \<^verbatim>\<open>bitmap_init(n)\<close> and the registration of pages
  \<open>0, ..., n - 1\<close> in this order, entry \<open>i\<close> of the offset table is the sum of the first
  \<open>i + 1\<close> item counts, whatever the counts between 0 and \<^verbatim>\<open>MaxHeapTuplesPerPage\<close>.
  The entries are \<^verbatim>\<open>int\<close>s.  With 7400000 pages of 291 items the sum of all counts
  is 2153400000, more than \<open>2^31 - 1\<close>, and the last entry is -2141567296.
\<close>

theorem running_sum_wraps:
  "map_sum id (\<lambda>b. pages b ! 7399999)
     (bindE (bitmap_init host_8k 7400000)
        (\<lambda>b0. register_pages host_8k b0 0 (replicate 7400000 291))) = Inr (- 2141567296) \<and>
   sum_list (take (Suc 7399999) (replicate 7400000 (291 :: int))) = 2153400000"
proof -
  let ?b0 = "\<lparr>npages = 7400000, nbytes = 0,
         maxBytes = PALLOC_CHUNK * (7400000 div PALLOC_CHUNK div 8 + 1),
         pages = map (junk_int host_8k) [0..<nat 7400000],
         data = replicate (nat (PALLOC_CHUNK * (7400000 div PALLOC_CHUNK div 8 + 1))) 0\<rparr>"
  have i: "bitmap_init host_8k 7400000 = Inr ?b0"
    by (rule bitmap_init_eq) simp
  have w: "wf_bitmap ?b0"
    by (simp add: wf_bitmap_def PALLOC_CHUNK_def)
  have s: "sum_list (take (Suc 7399999) (replicate 7400000 (291 :: int))) = 2153400000"
    by (simp add: sum_list_replicate)
  have "\<exists>b'. register_pages host_8k ?b0 0 (replicate 7400000 291) = Inr b' \<and> wf_bitmap b' \<and>
    npages b' = npages ?b0 \<and>
    (\<forall>j < nat 0. pages b' ! j = pages ?b0 ! j) \<and>
    (\<forall>i < length (replicate 7400000 (291 :: int)). pages b' ! (nat 0 + i) =
        wrap32 ((if (0::int) = 0 then 0 else pages ?b0 ! nat (0 - 1)) +
          sum_list (take (Suc i) (replicate 7400000 291))))"
    using w by (intro register_pages_nth) (simp_all add: host_8k_def INT_MAX_def)
  then obtain b where b: "register_pages host_8k ?b0 0 (replicate 7400000 291) = Inr b"
    and n: "\<forall>i < length (replicate 7400000 (291 :: int)). pages b ! (nat 0 + i) =
        wrap32 ((if (0::int) = 0 then 0 else pages ?b0 ! nat (0 - 1)) +
          sum_list (take (Suc i) (replicate 7400000 291)))"
    by blast
  from n [rule_format, of 7399999] have "pages b ! 7399999 =
      wrap32 (sum_list (take (Suc 7399999) (replicate 7400000 291)))"
    by simp
  then have "pages b ! 7399999 = - 2141567296"
    unfolding s by simp
  with i b s show ?thesis
    by simp
qed

text \<open>
  Claim C4 as the code has it: when moreover the sum of all counts is at most
  \<open>INT_MAX\<close>, every call succeeds, entry \<open>i\<close> of the offset table is the sum of the
  first \<open>i + 1\<close> counts, and the table is non-decreasing.
\<close>

theorem pages_are_running_sums:
  assumes "0 \<le> n" "length cs = nat n" "\<forall>c\<in>set cs. 0 \<le> c \<and> c \<le> MaxHeapTuplesPerPage h"
    "sum_list cs \<le> INT_MAX"
  shows "\<exists>b0 b. bitmap_init h n = Inr b0 \<and> register_pages h b0 0 cs = Inr b \<and>
    npages b = n \<and> length (pages b) = length cs \<and>
    (\<forall>i < length cs. pages b ! i = sum_list (take (Suc i) cs)) \<and> sorted (pages b)"
proof -
  let ?b0 = "\<lparr>npages = n, nbytes = 0, maxBytes = PALLOC_CHUNK * (n div PALLOC_CHUNK div 8 + 1),
         pages = map (junk_int h) [0..<nat n],
         data = replicate (nat (PALLOC_CHUNK * (n div PALLOC_CHUNK div 8 + 1))) 0\<rparr>"
  have i: "bitmap_init h n = Inr ?b0"
    using assms(1) by (rule bitmap_init_eq)
  have w: "wf_bitmap ?b0"
    using assms(1) by (simp add: wf_bitmap_def PALLOC_CHUNK_def pos_imp_zdiv_nonneg_iff)
  have nn: "\<forall>c\<in>set cs. 0 \<le> c"
    using assms(3) by simp
  have im: "\<forall>c\<in>set cs. 0 \<le> c \<and> c \<le> MaxHeapTuplesPerPage h \<and> c \<le> INT_MAX"
    using assms(3,4) member_le_sum_list [OF nn] by fastforce
  have "\<exists>b'. register_pages h ?b0 0 cs = Inr b' \<and> wf_bitmap b' \<and> npages b' = npages ?b0 \<and>
    (\<forall>j < nat 0. pages b' ! j = pages ?b0 ! j) \<and>
    (\<forall>i < length cs. pages b' ! (nat 0 + i) =
        wrap32 ((if (0::int) = 0 then 0 else pages ?b0 ! nat (0 - 1)) + sum_list (take (Suc i) cs)))"
    using assms(1,2) w im by (intro register_pages_nth) auto
  then obtain b where b: "register_pages h ?b0 0 cs = Inr b" "wf_bitmap b" "npages b = n"
    "\<And>i. i < length cs \<Longrightarrow> pages b ! i = wrap32 (sum_list (take (Suc i) cs))"
    by auto
  have part: "0 \<le> sum_list (take m cs)" "sum_list (take m cs) \<le> INT_MAX" for m
  proof -
    show "0 \<le> sum_list (take m cs)"
      using nn by (intro sum_list_nonneg) (auto dest: in_set_takeD)
    have "sum_list (take m cs) \<le> sum_list cs"
      using sum_list_take_mono [OF nn, of m "max m (length cs)"] by simp
    with assms(4) show "sum_list (take m cs) \<le> INT_MAX"
      by simp
  qed
  have nth: "pages b ! i = sum_list (take (Suc i) cs)" if "i < length cs" for i
    using b(4) [OF that] part [of "Suc i"] by (simp add: wrap32_id INT_MAX_def)
  have l: "length (pages b) = length cs"
    using b(2,3) assms(2) by (simp add: wf_bitmap_def)
  have "sorted (pages b)"
    unfolding sorted_iff_nth_mono
  proof (intro allI impI)
    fix i j assume "i \<le> j" "j < length (pages b)"
    then show "pages b ! i \<le> pages b ! j"
      using l nth [of i] nth [of j] nn
      by (simp add: sum_list_take_mono del: take_Suc_Cons)
  qed
  with i b l nth show ?thesis by blast
qed

lemma list_of_length_3: "length xs = 3 \<Longrightarrow> xs = [xs ! 0, xs ! 1, xs ! 2]"
  by (auto simp add: numeral_3_eq_3 length_Suc_conv)

theorem pages_are_running_sums_witness:
  "\<exists>b0 b. bitmap_init host_8k 3 = Inr b0 \<and> register_pages host_8k b0 0 [10, 0, 5] = Inr b \<and>
     pages b = [10, 10, 15] \<and> sorted (pages b)"
proof -
  have h: "\<forall>c\<in>set [10, 0, 5 :: int]. 0 \<le> c \<and> c \<le> MaxHeapTuplesPerPage host_8k"
    by (simp add: host_8k_def)
  have l: "length [10, 0, 5 :: int] = nat 3"
    by simp
  have s: "sum_list [10, 0, 5 :: int] \<le> INT_MAX"
    by (simp add: INT_MAX_def)
  from pages_are_running_sums [of 3 "[10, 0, 5]" host_8k, OF _ l h s]
  obtain b0 b where b: "bitmap_init host_8k 3 = Inr b0"
    "register_pages host_8k b0 0 [10, 0, 5] = Inr b"
    "length (pages b) = length [10, 0, 5 :: int]"
    "\<forall>i < length [10, 0, 5 :: int]. pages b ! i = sum_list (take (Suc i) [10, 0, 5])"
    "sorted (pages b)"
    by fastforce
  have "pages b ! 0 = 10" "pages b ! 1 = 10" "pages b ! 2 = 15"
    using b(4) [rule_format, of 0] b(4) [rule_format, of 1] b(4) [rule_format, of 2]
    by (simp_all add: numeral_2_eq_2)
  moreover have "length (pages b) = 3"
    using b(3) by simp
  ultimately have "pages b = [10, 10, 15]"
    using list_of_length_3 [of "pages b"] by simp
  with b show ?thesis by blast
qed

section \<open>Growth of the buffer\<close>

lemma next_page_init:
  assumes "0 \<le> n"
  shows "\<exists>b. bitmap_init h n = Inr b \<and> next_page b 0 \<and> npages b = n"
  using assms
  by (simp add: bitmap_init_eq next_page_def wf_bitmap_def PALLOC_CHUNK_def
      pos_imp_zdiv_nonneg_iff)

lemma c_div_8_step:
  assumes "x \<le> y" "y \<le> x + 8192"
  shows "c_div y 8 \<le> c_div x 8 + 1024"
proof -
  have "y div 8 \<le> (x + 8192) div 8"
    using assms(2) by (rule zdiv_mono1) simp
  then have f: "y div 8 \<le> x div 8 + 1024"
    by simp
  have "(- x) div 8 \<le> (- y + 8192) div 8"
    using assms(2) by (intro zdiv_mono1) simp_all
  then have g: "(- x) div 8 \<le> (- y) div 8 + 1024"
    by simp
  have t: "z div 8 \<le> - ((- z) div 8)" for z :: int
    by (simp add: zdiv_zminus1_eq_if)
  have n: "0 \<le> z \<Longrightarrow> 0 \<le> z div 8" for z :: int
    by (simp add: pos_imp_zdiv_nonneg_iff)
  consider "0 \<le> x" | "x < 0" "0 \<le> y" | "y < 0"
    using assms(1) by linarith
  then show ?thesis
  proof cases
    case 1
    then show ?thesis using assms(1) f by (simp add: c_div_nonneg)
  next
    case 2
    have "c_div y 8 = y div 8"
      using 2 by (simp add: c_div_nonneg)
    moreover have "c_div x 8 = - ((- x) div 8)"
      using 2 by (simp add: c_div_def)
    ultimately show ?thesis
      using f t [of x] by simp
  next
    case 3
    then have "x < 0" using assms(1) by simp
    then have "c_div x 8 = - ((- x) div 8)" "c_div y 8 = - ((- y) div 8)"
      using 3 by (simp_all add: c_div_def)
    then show ?thesis using g by simp
  qed
qed

lemma c_div_8_neg: "x \<le> 0 \<Longrightarrow> c_div x 8 \<le> 0"
  by (cases "x = 0") (simp_all add: c_div_def pos_imp_zdiv_nonneg_iff)

lemma nbytes_step:
  assumes "0 \<le> items" "items \<le> 8192" "- 2147483648 \<le> prev" "prev \<le> 2147483647"
  shows "c_div (wrap32 (wrap32 (items + prev) + 7)) 8 \<le> c_div (wrap32 (prev + 7)) 8 + 1024 \<or>
         c_div (wrap32 (wrap32 (items + prev) + 7)) 8 \<le> 0"
proof -
  have e: "wrap32 (wrap32 (items + prev) + 7) = wrap32 (items + prev + 7)"
    using wrap32_add_right [of 7 "items + prev"] by (simp add: add.commute)
  show ?thesis
  proof (cases "items + prev + 7 \<le> 2147483647")
    case True
    then have "wrap32 (items + prev + 7) = items + prev + 7" "wrap32 (prev + 7) = prev + 7"
      using assms by (simp_all add: wrap32_id)
    then show ?thesis
      unfolding e using assms c_div_8_step [of "prev + 7" "items + prev + 7"] by simp
  next
    case False
    then have "(items + prev + 7 + 2147483648 - 4294967296) mod 4294967296 =
        items + prev + 7 + 2147483648 - 4294967296"
      using assms by (intro mod_pos_pos_trivial) simp_all
    then have "(items + prev + 7 + 2147483648) mod 4294967296 =
        items + prev + 7 + 2147483648 - 4294967296"
      unfolding minus_mod_self2 .
    then have "wrap32 (items + prev + 7) \<le> 0"
      using assms by (simp add: wrap32_def)
    then show ?thesis
      unfolding e by (simp add: c_div_8_neg)
  qed
qed

lemma add_page_growth:
  assumes mx: "MaxHeapTuplesPerPage h \<le> 8 * PALLOC_CHUNK"
    and np: "next_page b page" and pg: "page < npages b"
    and it: "0 \<le> items" "items \<le> MaxHeapTuplesPerPage h"
  shows "\<exists>b'. bitmap_add_page h b page items = Inr b' \<and> next_page b' (page + 1) \<and>
    npages b' = npages b \<and> nbytes b' \<le> maxBytes b' \<and> maxBytes b \<le> maxBytes b' \<and>
    PALLOC_CHUNK dvd maxBytes b' - maxBytes b \<and>
    take (nat (maxBytes b)) (data b') = data b \<and>
    drop (nat (maxBytes b)) (data b') = replicate (nat (maxBytes b' - maxBytes b)) 0"
proof -
  define v where "v = (if page = 0 then items else wrap32 (items + pages b ! nat (page - 1)))"
  define nb where "nb = c_div (wrap32 (v + 7)) 8"
  have wf: "wf_bitmap b" and p0: "0 \<le> page" and ch: "1024 \<le> maxBytes b"
    using np by (simp_all add: next_page_def PALLOC_CHUNK_def)
  have i8: "items \<le> 8192"
    using it mx by (simp add: PALLOC_CHUNK_def)
  have vr: "- INT_MAX - 1 \<le> v" "v \<le> INT_MAX"
    using it i8 wrap32_range [of "items + pages b ! nat (page - 1)"]
    by (simp_all add: v_def INT_MAX_def)
  have fit: "nb \<le> maxBytes b + 1024"
  proof (cases "page = 0")
    case True
    then have "wrap32 (v + 7) = items + 7"
      using it i8 by (simp add: v_def wrap32_id)
    then have "nb = (items + 7) div 8"
      using it by (simp add: nb_def c_div_nonneg)
    then show ?thesis using i8 ch by simp
  next
    case False
    then have pr: "- 2147483648 \<le> pages b ! nat (page - 1)" "pages b ! nat (page - 1) \<le> 2147483647"
      and nn: "c_div (wrap32 (pages b ! nat (page - 1) + 7)) 8 \<le> maxBytes b"
      using np by (auto simp add: next_page_def INT_MAX_def)
    from nbytes_step [OF it(1) i8 pr] show ?thesis
      using False nn ch by (auto simp add: nb_def v_def)
  qed
  have len: "length (data b) = nat (maxBytes b)" "nat page < length (pages b)"
    using wf p0 pg by (simp_all add: wf_bitmap_def)
  have eq: "bitmap_add_page h b page items =
     Inr (if nb > maxBytes b
          then b\<lparr>pages := (pages b)[nat page := v], nbytes := nb,
                  maxBytes := maxBytes b + PALLOC_CHUNK,
                  data := data b @ replicate (nat PALLOC_CHUNK) 0\<rparr>
          else b\<lparr>pages := (pages b)[nat page := v], nbytes := nb\<rparr>)"
    using bitmap_add_page_eq [OF wf p0 pg it, unfolded Let_def, folded v_def, folded nb_def] .
  show ?thesis
  proof (cases "nb > maxBytes b")
    case True
    with eq fit vr wf p0 ch len show ?thesis
      by (simp add: next_page_def wf_bitmap_def PALLOC_CHUNK_def nat_add_distrib flip: nb_def)
  next
    case False
    with eq vr wf p0 ch len show ?thesis
      by (simp add: next_page_def wf_bitmap_def PALLOC_CHUNK_def flip: nb_def)
  qed
qed

text \<open>
  Claim C5: pages \<open>page\<close>, \<open>page + 1\<close>, ... are registered in order, with item counts
  between 0 and \<^verbatim>\<open>MaxHeapTuplesPerPage\<close>, which one chunk of the buffer can hold
  (``this needs to be large enough to hold items for one page'').  Then every call
  succeeds and, from each bitmap \<open>bs ! j\<close> to the next: \<open>nbytes\<close> does not exceed
  \<open>maxBytes\<close>; \<open>maxBytes\<close> does not decrease and grows by a multiple of the chunk; the
  old buffer is a prefix of the new one, and the bytes added are zero.
\<close>

theorem buffer_growth:
  assumes "MaxHeapTuplesPerPage h \<le> 8 * PALLOC_CHUNK" "next_page b page"
    "page + int (length cs) \<le> npages b"
    "\<forall>c\<in>set cs. 0 \<le> c \<and> c \<le> MaxHeapTuplesPerPage h"
  shows "\<exists>bs. register_trace h b page cs = Inr bs \<and> length bs = Suc (length cs) \<and>
    bs ! 0 = b \<and>
    (\<forall>j < length cs.
       nbytes (bs ! Suc j) \<le> maxBytes (bs ! Suc j) \<and>
       maxBytes (bs ! j) \<le> maxBytes (bs ! Suc j) \<and>
       PALLOC_CHUNK dvd maxBytes (bs ! Suc j) - maxBytes (bs ! j) \<and>
       take (nat (maxBytes (bs ! j))) (data (bs ! Suc j)) = data (bs ! j) \<and>
       drop (nat (maxBytes (bs ! j))) (data (bs ! Suc j)) =
         replicate (nat (maxBytes (bs ! Suc j) - maxBytes (bs ! j))) 0)"
  using assms(2-)
proof (induction cs arbitrary: b page)
  case Nil
  then show ?case by simp
next
  case (Cons c cs)
  from Cons.prems have c: "0 \<le> c" "c \<le> MaxHeapTuplesPerPage h" and pg: "page < npages b"
    by auto
  from add_page_growth [OF assms(1) Cons.prems(1) pg c]
  obtain b1 where b1: "bitmap_add_page h b page c = Inr b1" "next_page b1 (page + 1)"
    "npages b1 = npages b" "nbytes b1 \<le> maxBytes b1" "maxBytes b \<le> maxBytes b1"
    "PALLOC_CHUNK dvd maxBytes b1 - maxBytes b"
    "take (nat (maxBytes b)) (data b1) = data b"
    "drop (nat (maxBytes b)) (data b1) = replicate (nat (maxBytes b1 - maxBytes b)) 0"
    by blast
  have "\<exists>bs. register_trace h b1 (page + 1) cs = Inr bs \<and> length bs = Suc (length cs) \<and>
    bs ! 0 = b1 \<and>
    (\<forall>j < length cs.
       nbytes (bs ! Suc j) \<le> maxBytes (bs ! Suc j) \<and>
       maxBytes (bs ! j) \<le> maxBytes (bs ! Suc j) \<and>
       PALLOC_CHUNK dvd maxBytes (bs ! Suc j) - maxBytes (bs ! j) \<and>
       take (nat (maxBytes (bs ! j))) (data (bs ! Suc j)) = data (bs ! j) \<and>
       drop (nat (maxBytes (bs ! j))) (data (bs ! Suc j)) =
         replicate (nat (maxBytes (bs ! Suc j) - maxBytes (bs ! j))) 0)"
    using Cons.prems b1(2,3) by (intro Cons.IH) auto
  then obtain bs where bs: "register_trace h b1 (page + 1) cs = Inr bs"
    "length bs = Suc (length cs)" "bs ! 0 = b1"
    "\<And>j. j < length cs \<Longrightarrow>
       nbytes (bs ! Suc j) \<le> maxBytes (bs ! Suc j) \<and>
       maxBytes (bs ! j) \<le> maxBytes (bs ! Suc j) \<and>
       PALLOC_CHUNK dvd maxBytes (bs ! Suc j) - maxBytes (bs ! j) \<and>
       take (nat (maxBytes (bs ! j))) (data (bs ! Suc j)) = data (bs ! j) \<and>
       drop (nat (maxBytes (bs ! j))) (data (bs ! Suc j)) =
         replicate (nat (maxBytes (bs ! Suc j) - maxBytes (bs ! j))) 0"
    by blast
  have step: "nbytes ((b # bs) ! Suc j) \<le> maxBytes ((b # bs) ! Suc j) \<and>
       maxBytes ((b # bs) ! j) \<le> maxBytes ((b # bs) ! Suc j) \<and>
       PALLOC_CHUNK dvd maxBytes ((b # bs) ! Suc j) - maxBytes ((b # bs) ! j) \<and>
       take (nat (maxBytes ((b # bs) ! j))) (data ((b # bs) ! Suc j)) = data ((b # bs) ! j) \<and>
       drop (nat (maxBytes ((b # bs) ! j))) (data ((b # bs) ! Suc j)) =
         replicate (nat (maxBytes ((b # bs) ! Suc j) - maxBytes ((b # bs) ! j))) 0"
    if "j < length (c # cs)" for j
  proof (cases j)
    case 0
    then show ?thesis using b1 bs(3) by simp
  next
    case (Suc j')
    then show ?thesis using that bs(4) [of j'] by simp
  qed
  have "register_trace h b page (c # cs) = Inr (b # bs)"
    using b1(1) bs(1) by simp
  then show ?case
    using bs(2) step by (intro exI [of _ "b # bs"]) simp
qed

theorem buffer_growth_witness:
  "MaxHeapTuplesPerPage host_8k \<le> 8 * PALLOC_CHUNK \<and> next_page full_chunk 28 \<and>
   (\<exists>bs. register_trace host_8k full_chunk 28 [291] = Inr bs \<and> length bs = 2 \<and>
      bs ! 0 = full_chunk \<and>
      nbytes (bs ! 1) = 1055 \<and> maxBytes (bs ! 1) = 2048 \<and>
      nbytes (bs ! 1) \<le> maxBytes (bs ! 1) \<and>
      maxBytes full_chunk \<le> maxBytes (bs ! 1) \<and>
      PALLOC_CHUNK dvd maxBytes (bs ! 1) - maxBytes full_chunk \<and>
      take 1024 (data (bs ! 1)) = data full_chunk \<and>
      drop 1024 (data (bs ! 1)) = replicate 1024 0)"
proof -
  have h1: "MaxHeapTuplesPerPage host_8k \<le> 8 * PALLOC_CHUNK"
    by (simp add: host_8k_def PALLOC_CHUNK_def)
  have h2: "next_page full_chunk 28"
    by (simp add: next_page_def wf_bitmap_def full_chunk_def PALLOC_CHUNK_def nth_append
        INT_MAX_def wrap32_def c_div_nonneg)
  have h3: "28 + int (length [291 :: int]) \<le> npages full_chunk"
    by (simp add: full_chunk_def)
  have h4: "\<forall>c\<in>set [291 :: int]. 0 \<le> c \<and> c \<le> MaxHeapTuplesPerPage host_8k"
    by (simp add: host_8k_def)
  from buffer_growth [OF h1 h2 h3 h4]
  obtain bs where bs: "register_trace host_8k full_chunk 28 [291] = Inr bs"
    "length bs = 2" "bs ! 0 = full_chunk"
    "nbytes (bs ! Suc 0) \<le> maxBytes (bs ! Suc 0)"
    "maxBytes (bs ! 0) \<le> maxBytes (bs ! Suc 0)"
    "PALLOC_CHUNK dvd maxBytes (bs ! Suc 0) - maxBytes (bs ! 0)"
    "take (nat (maxBytes (bs ! 0))) (data (bs ! Suc 0)) = data (bs ! 0)"
    "drop (nat (maxBytes (bs ! 0))) (data (bs ! Suc 0)) =
       replicate (nat (maxBytes (bs ! Suc 0) - maxBytes (bs ! 0))) 0"
    by auto
  have wf: "wf_bitmap full_chunk"
    using h2 by (simp add: next_page_def)
  have "bitmap_add_page host_8k full_chunk 28 291 =
      Inr (full_chunk\<lparr>pages := (pages full_chunk)[28 := 8439], nbytes := 1055,
             maxBytes := 2048, data := data full_chunk @ replicate 1024 0\<rparr>)"
    using bitmap_add_page_eq [OF wf, of 28 291 host_8k]
    by (simp add: Let_def full_chunk_def host_8k_def PALLOC_CHUNK_def nth_append c_div_nonneg
        wrap32_def)
  then have "bs ! 1 = full_chunk\<lparr>pages := (pages full_chunk)[28 := 8439], nbytes := 1055,
             maxBytes := 2048, data := data full_chunk @ replicate 1024 0\<rparr>"
    using bs(1) by auto
  then have v: "nbytes (bs ! 1) = 1055" "maxBytes (bs ! 1) = 2048"
    by simp_all
  have m: "maxBytes full_chunk = 1024"
    by (simp add: full_chunk_def)
  show ?thesis
    using h1 h2 bs v m by (intro conjI exI [of _ bs]) simp_all
qed

section \<open>Bits of the buffer\<close>

lemma c_div_mod_nonneg: "0 \<le> c_div a 8 \<Longrightarrow> 0 \<le> c_mod a 8 \<Longrightarrow> 0 \<le> a"
  by (simp add: c_mod_def)

lemma shl1_eq_Inr: "shl1 n = Inr m \<Longrightarrow> 0 \<le> n"
  by (simp add: shl1_def split: if_splits)

lemma bit_set_byte:
  "j < 8 \<Longrightarrow> bit ((w :: 8 word) OR 2 ^ m) j \<longleftrightarrow> bit w j \<or> j = m"
  by (auto simp add: bit_or_iff bit_exp_iff)

lemma bit_clear_byte:
  "bit ((w :: 8 word) AND NOT (2 ^ m)) j \<longleftrightarrow> bit w j \<and> j \<noteq> m"
  by (auto simp add: bit_and_iff bit_not_iff bit_exp_iff dest: bit_imp_le_length)

lemma bit_at_update:
  "k < length (data b) \<Longrightarrow>
   bit_at (b\<lparr>data := (data b)[k := w]\<rparr>) i = (if i div 8 = k then bit w (i mod 8) else bit_at b i)"
  by (simp add: bit_at_def)

lemma bit_at_set:
  assumes "idx div 8 < length (data b)"
  shows "bit_at (b\<lparr>data := (data b)[idx div 8 := data b ! (idx div 8) OR 2 ^ (idx mod 8)]\<rparr>) i
    \<longleftrightarrow> bit_at b i \<or> i = idx"
proof (cases "i div 8 = idx div 8")
  case True
  then have "i = idx \<longleftrightarrow> i mod 8 = idx mod 8"
    by (metis div_mult_mod_eq)
  with True assms show ?thesis
    by (simp add: bit_at_update bit_set_byte) (simp add: bit_at_def)
next
  case False
  then have "i \<noteq> idx" by auto
  with False assms show ?thesis by (simp add: bit_at_update)
qed

lemma bitmap_set_item_accepts:
  assumes "accepts b page item idx"
  shows "bitmap_set_item b page item st =
    Inr (True, b\<lparr>data := (data b)[idx div 8 :=
        (if st then data b ! (idx div 8) OR 2 ^ (idx mod 8)
         else data b ! (idx div 8) AND NOT (2 ^ (idx mod 8)))]\<rparr>)"
proof -
  from assms obtain cnt where a: "GetBitmapIndex b page item = Inr (int idx)" "page < npages b"
    "int idx div 8 \<le> nbytes b" "rd (pages b) page = Inr cnt" "item < cnt"
    "int idx div 8 < int (length (data b))"
    by (auto simp add: accepts_def zdiv_int)
  show ?thesis
    using bitmap_set_item_in [OF a(1) _ a(2-), of st]
    by (simp add: nat_div_distrib nat_mod_distrib flip: zdiv_int zmod_int)
qed


lemma same_layout_refl: "same_layout b b"
  by (simp add: same_layout_def)

lemma same_layout_trans: "same_layout a b \<Longrightarrow> same_layout b c \<Longrightarrow> same_layout a c"
  by (simp add: same_layout_def)

lemma accepts_same_layout: "same_layout b b' \<Longrightarrow> accepts b page item idx \<Longrightarrow> accepts b' page item idx"
  by (auto simp add: accepts_def same_layout_def GetBitmapIndex_def)

lemma bitmap_get_item_True:
  assumes "bitmap_get_item b page item = Inr True"
  shows "\<exists>idx cnt. GetBitmapIndex b page item = Inr idx \<and> 0 \<le> idx \<and> page < npages b \<and>
    idx div 8 \<le> nbytes b \<and> rd (pages b) page = Inr cnt \<and> item < cnt \<and>
    idx div 8 < int (length (data b)) \<and> data b ! nat (idx div 8) \<noteq> 0"
proof -
  from assms obtain idx where idx: "GetBitmapIndex b page item = Inr idx"
    and r1: "(let byteIdx = c_div idx 8; bitIdx = c_mod idx 8 in
       if page \<ge> npages b then Inr False
       else if byteIdx > nbytes b then Inr False
       else
         bindE (rd (pages b) page) (\<lambda>cnt.
           if item \<ge> cnt then Inr False
           else
             bindE (rd (data b) byteIdx) (\<lambda>x.
               if sint x = 0 then Inr False
               else bindE (shl1 bitIdx) (\<lambda>mask. Inr (mask \<noteq> 0))))) = Inr True"
    unfolding bitmap_get_item_def bindE_eq_Inr by blast
  from r1 have p: "page < npages b" and nb: "c_div idx 8 \<le> nbytes b"
    and r2: "bindE (rd (pages b) page) (\<lambda>cnt.
           if item \<ge> cnt then Inr False
           else
             bindE (rd (data b) (c_div idx 8)) (\<lambda>x.
               if sint x = 0 then Inr False
               else bindE (shl1 (c_mod idx 8)) (\<lambda>mask. Inr (mask \<noteq> 0)))) = Inr True"
    by (simp_all add: Let_def split: if_splits)
  from r2 obtain cnt where cnt: "rd (pages b) page = Inr cnt"
    and r2': "(if item \<ge> cnt then Inr False
           else
             bindE (rd (data b) (c_div idx 8)) (\<lambda>x.
               if sint x = 0 then Inr False
               else bindE (shl1 (c_mod idx 8)) (\<lambda>mask. Inr (mask \<noteq> 0)))) = Inr True"
    unfolding bindE_eq_Inr by blast
  from r2' have c: "item < cnt"
    and r3: "bindE (rd (data b) (c_div idx 8)) (\<lambda>x.
               if sint x = 0 then Inr False
               else bindE (shl1 (c_mod idx 8)) (\<lambda>mask. Inr (mask \<noteq> 0))) = Inr True"
    by (simp_all split: if_splits)
  from r3 obtain x where x: "rd (data b) (c_div idx 8) = Inr x"
    and r3': "(if sint x = 0 then Inr False
               else bindE (shl1 (c_mod idx 8)) (\<lambda>mask. Inr (mask \<noteq> 0))) = Inr True"
    unfolding bindE_eq_Inr by blast
  from r3' have xn: "x \<noteq> 0"
    and r4: "bindE (shl1 (c_mod idx 8)) (\<lambda>mask. Inr (mask \<noteq> 0)) = Inr True"
    by (auto simp add: signed_eq_0_iff split: if_splits)
  from r4 have m: "0 \<le> c_mod idx 8"
    unfolding bindE_eq_Inr by (auto dest: shl1_eq_Inr)
  from x have d: "0 \<le> c_div idx 8" "c_div idx 8 < int (length (data b))"
    "x = data b ! nat (c_div idx 8)"
    by (simp_all add: rd_eq_Inr)
  from d(1) m have i0: "0 \<le> idx"
    by (rule c_div_mod_nonneg)
  then have "c_div idx 8 = idx div 8"
    by (rule c_div_nonneg)
  with idx i0 p nb cnt c d xn show ?thesis
    by auto
qed

lemma bit_at_clear:
  assumes "idx div 8 < length (data b)"
  shows "bit_at (b\<lparr>data := (data b)[idx div 8 := data b ! (idx div 8) AND NOT (2 ^ (idx mod 8))]\<rparr>) i
    \<longleftrightarrow> bit_at b i \<and> i \<noteq> idx"
proof (cases "i div 8 = idx div 8")
  case True
  then have "i = idx \<longleftrightarrow> i mod 8 = idx mod 8"
    by (metis div_mult_mod_eq)
  with True assms show ?thesis
    by (simp add: bit_at_update bit_clear_byte) (simp add: bit_at_def)
next
  case False
  then have "i \<noteq> idx" by auto
  with False assms show ?thesis by (simp add: bit_at_update)
qed

lemma bitmap_get_item_accepts:
  assumes "accepts b page item idx"
  shows "bitmap_get_item b page item = Inr (data b ! (idx div 8) \<noteq> 0)"
proof -
  from assms obtain cnt where a: "GetBitmapIndex b page item = Inr (int idx)" "page < npages b"
    "int idx div 8 \<le> nbytes b" "rd (pages b) page = Inr cnt" "item < cnt"
    "int idx div 8 < int (length (data b))"
    by (auto simp add: accepts_def zdiv_int)
  show ?thesis
    using bitmap_get_item_in [OF a(1) _ a(2-)]
    by (simp add: nat_div_distrib flip: zdiv_int)
qed

lemma zero_byte_no_bit: "idx div 8 < length (data b) \<Longrightarrow> data b ! (idx div 8) = 0 \<Longrightarrow> \<not> bit_at b idx"
  by (simp add: bit_at_def)

section \<open>Heap pages and HOT chains\<close>

lemma heap_mark_accepts:
  assumes "i < length (pd_linp pg)" "accepts B page (int i) k"
  shows "\<exists>B'. heap_mark pg page i (B, e) = Inr (B', e) \<and> same_layout B B' \<and>
    (\<forall>j. bit_at B' j \<longleftrightarrow> bit_at B j \<or> (j = k \<and> ItemIdIsUsed (pd_linp pg ! i)))"
proof (cases "ItemIdIsUsed (pd_linp pg ! i)")
  case True
  have len: "k div 8 < length (data B)"
    using assms(2) by (simp add: accepts_def)
  let ?B = "B\<lparr>data := (data B)[k div 8 := data B ! (k div 8) OR 2 ^ (k mod 8)]\<rparr>"
  have "heap_mark pg page i (B, e) = Inr (?B, e)"
    using assms(1) True bitmap_set_item_accepts [OF assms(2), of True]
    by (simp add: heap_mark_def rd_in)
  moreover have "same_layout B ?B"
    by (simp add: same_layout_def)
  ultimately show ?thesis
    using True bit_at_set [OF len] by blast
next
  case False
  then have "heap_mark pg page i (B, e) = Inr (B, e)"
    using assms(1) by (simp add: heap_mark_def rd_in)
  with False show ?thesis
    by (simp add: same_layout_refl)
qed

lemma heap_unmark_accepts:
  assumes "i < length (pd_linp pg)" "accepts B page (int i) k"
  shows "\<exists>B'. heap_unmark pg page i (B, e) = Inr (B', e) \<and> same_layout B B' \<and>
    (\<forall>j. bit_at B' j \<longleftrightarrow> bit_at B j \<and> \<not> (j = k \<and> HeapTupleHeaderIsHeapOnly pg (pd_linp pg ! i)))"
proof -
  have len: "k div 8 < length (data B)"
    using assms(2) by (simp add: accepts_def)
  let ?B = "B\<lparr>data := (data B)[k div 8 := data B ! (k div 8) AND NOT (2 ^ (k mod 8))]\<rparr>"
  note g = bitmap_get_item_accepts [OF assms(2)]
  consider (keep) "\<not> HeapTupleHeaderIsHeapOnly pg (pd_linp pg ! i)"
    | (zero) "HeapTupleHeaderIsHeapOnly pg (pd_linp pg ! i)" "data B ! (k div 8) = 0"
    | (clear) "HeapTupleHeaderIsHeapOnly pg (pd_linp pg ! i)" "data B ! (k div 8) \<noteq> 0"
    by blast
  then show ?thesis
  proof cases
    case keep
    then have "heap_unmark pg page i (B, e) = Inr (B, e)"
      using assms(1) by (simp add: heap_unmark_def rd_in)
    with keep show ?thesis
      by (simp add: same_layout_refl)
  next
    case zero
    then have "heap_unmark pg page i (B, e) = Inr (B, e)"
      using assms(1) g by (simp add: heap_unmark_def rd_in)
    moreover have "\<not> bit_at B k"
      using len zero(2) by (rule zero_byte_no_bit)
    ultimately show ?thesis
      by (auto simp add: same_layout_refl)
  next
    case clear
    then have "heap_unmark pg page i (B, e) = Inr (?B, e)"
      using assms(1) g bitmap_set_item_accepts [OF assms(2), of False]
      by (simp add: heap_unmark_def rd_in)
    moreover have "same_layout B ?B"
      by (simp add: same_layout_def)
    ultimately show ?thesis
      using clear(1) bit_at_clear [OF len] by blast
  qed
qed

lemma heap_mark_loop:
  assumes "\<forall>i\<in>set items. i < length (pd_linp pg) \<and> accepts B page (int i) (f i)"
  shows "\<exists>B'. for_items (heap_mark pg page) items (B, e) = Inr (B', e) \<and> same_layout B B' \<and>
    (\<forall>j. bit_at B' j \<longleftrightarrow>
       bit_at B j \<or> (\<exists>i\<in>set items. j = f i \<and> ItemIdIsUsed (pd_linp pg ! i)))"
  using assms
proof (induction items arbitrary: B)
  case Nil
  then show ?case by (simp add: same_layout_refl)
next
  case (Cons i items)
  from Cons.prems have i: "i < length (pd_linp pg)" "accepts B page (int i) (f i)"
    by simp_all
  from heap_mark_accepts [OF i, of e]
  obtain B1 where B1: "heap_mark pg page i (B, e) = Inr (B1, e)" "same_layout B B1"
    "\<And>j. bit_at B1 j \<longleftrightarrow> bit_at B j \<or> (j = f i \<and> ItemIdIsUsed (pd_linp pg ! i))"
    by blast
  have "\<forall>i\<in>set items. i < length (pd_linp pg) \<and> accepts B1 page (int i) (f i)"
    using Cons.prems B1(2) by (auto intro: accepts_same_layout)
  from Cons.IH [OF this]
  obtain B' where B': "for_items (heap_mark pg page) items (B1, e) = Inr (B', e)"
    "same_layout B1 B'"
    "\<And>j. bit_at B' j \<longleftrightarrow>
       bit_at B1 j \<or> (\<exists>i\<in>set items. j = f i \<and> ItemIdIsUsed (pd_linp pg ! i))"
    by blast
  have "for_items (heap_mark pg page) (i # items) (B, e) = Inr (B', e)"
    using B1(1) B'(1) by simp
  moreover have "same_layout B B'"
    using B1(2) B'(2) by (rule same_layout_trans)
  moreover have "bit_at B' j \<longleftrightarrow>
       bit_at B j \<or> (\<exists>i\<in>set (i # items). j = f i \<and> ItemIdIsUsed (pd_linp pg ! i))" for j
    unfolding B'(3) B1(3) by auto
  ultimately show ?case by blast
qed

lemma heap_unmark_loop:
  assumes "\<forall>i\<in>set items. i < length (pd_linp pg) \<and> accepts B page (int i) (f i)"
  shows "\<exists>B'. for_items (heap_unmark pg page) items (B, e) = Inr (B', e) \<and> same_layout B B' \<and>
    (\<forall>j. bit_at B' j \<longleftrightarrow>
       bit_at B j \<and>
       \<not> (\<exists>i\<in>set items. j = f i \<and> HeapTupleHeaderIsHeapOnly pg (pd_linp pg ! i)))"
  using assms
proof (induction items arbitrary: B)
  case Nil
  then show ?case by (simp add: same_layout_refl)
next
  case (Cons i items)
  from Cons.prems have i: "i < length (pd_linp pg)" "accepts B page (int i) (f i)"
    by simp_all
  from heap_unmark_accepts [OF i, of e]
  obtain B1 where B1: "heap_unmark pg page i (B, e) = Inr (B1, e)" "same_layout B B1"
    "\<And>j. bit_at B1 j \<longleftrightarrow>
       bit_at B j \<and> \<not> (j = f i \<and> HeapTupleHeaderIsHeapOnly pg (pd_linp pg ! i))"
    by blast
  have "\<forall>i\<in>set items. i < length (pd_linp pg) \<and> accepts B1 page (int i) (f i)"
    using Cons.prems B1(2) by (auto intro: accepts_same_layout)
  from Cons.IH [OF this]
  obtain B' where B': "for_items (heap_unmark pg page) items (B1, e) = Inr (B', e)"
    "same_layout B1 B'"
    "\<And>j. bit_at B' j \<longleftrightarrow>
       bit_at B1 j \<and>
       \<not> (\<exists>i\<in>set items. j = f i \<and> HeapTupleHeaderIsHeapOnly pg (pd_linp pg ! i))"
    by blast
  have "for_items (heap_unmark pg page) (i # items) (B, e) = Inr (B', e)"
    using B1(1) B'(1) by simp
  moreover have "same_layout B B'"
    using B1(2) B'(2) by (rule same_layout_trans)
  moreover have "bit_at B' j \<longleftrightarrow>
       bit_at B j \<and>
       \<not> (\<exists>i\<in>set (i # items). j = f i \<and> HeapTupleHeaderIsHeapOnly pg (pd_linp pg ! i))" for j
    unfolding B'(3) B1(3) by auto
  ultimately show ?case by blast
qed

lemma add_page_accepts:
  assumes mx: "MaxHeapTuplesPerPage h \<le> 8 * PALLOC_CHUNK"
    and np: "next_page b page" and pg: "page < npages b"
    and n: "int n \<le> MaxHeapTuplesPerPage h"
    and r: "0 \<le> first_item b page" "first_item b page + int n + 7 \<le> INT_MAX"
  shows "\<exists>b0. bitmap_add_page h b page (int n) = Inr b0 \<and>
    pages b0 = (pages b)[nat page := first_item b page + int n] \<and>
    (\<forall>i < n. accepts b0 page (int i) (nat (first_item b page + int i)))"
proof -
  let ?base = "first_item b page"
  have wf: "wf_bitmap b" and p0: "0 \<le> page"
    using np by (simp_all add: next_page_def)
  have "wrap32 (int n + ?base) = int n + ?base"
    using r by (intro wrap32_id) (simp_all add: INT_MAX_def)
  then have v: "(if page = 0 then int n else wrap32 (int n + pages b ! nat (page - 1))) =
      ?base + int n"
    by (cases "page = 0") (simp_all add: first_item_def add.commute)
  from add_page_growth [OF mx np pg _ n]
  obtain b0 where b0: "bitmap_add_page h b page (int n) = Inr b0" "next_page b0 (page + 1)"
    "npages b0 = npages b"
    by auto
  from wf_bitmap_add_page [OF wf p0 pg _ n] b0(1)
  have ps: "pages b0 = (pages b)[nat page := ?base + int n]"
    unfolding v by simp
  have len: "nat page < length (pages b)"
    using wf p0 pg by (simp add: wf_bitmap_def)
  have at: "pages b0 ! nat page = ?base + int n"
    using ps len by simp
  have wf0: "wf_bitmap b0" and nb: "nbytes b0 = c_div (wrap32 (?base + int n + 7)) 8"
    and fit: "nbytes b0 \<le> maxBytes b0"
    using b0(2) p0 at by (simp_all add: next_page_def)
  have "wrap32 (?base + int n + 7) = ?base + int n + 7"
    using r by (simp add: wrap32_id INT_MAX_def)
  then have nb': "nbytes b0 = (?base + int n + 7) div 8"
    using nb r(1) by (simp add: c_div_nonneg)
  have acc: "accepts b0 page (int i) (nat (?base + int i))" if "i < n" for i
  proof -
    have w: "wrap32 (?base + int i) = ?base + int i"
      using r that by (simp add: wrap32_id INT_MAX_def)
    have "page \<noteq> 0 \<Longrightarrow> rd (pages b0) (page - 1) = Inr ?base"
      using p0 len ps by (simp add: rd_def first_item_def nat_diff_distrib)
    then have g: "GetBitmapIndex b0 page (int i) = Inr (int (nat (?base + int i)))"
      using r(1) w by (cases "page = 0") (simp_all add: GetBitmapIndex_def first_item_def)
    have d: "int (nat (?base + int i) div 8) = (?base + int i) div 8"
      using r(1) by (simp add: zdiv_int)
    have "(?base + int i) div 8 \<le> (?base + int n + 7) div 8"
      using that by (intro zdiv_mono1) simp_all
    then have c2: "int (nat (?base + int i) div 8) \<le> nbytes b0"
      unfolding d nb' .
    have "(?base + int i) div 8 + 1 = (?base + int i + 8) div 8"
      by simp
    also have "\<dots> \<le> (?base + int n + 7) div 8"
      using that by (intro zdiv_mono1) simp_all
    finally have "(?base + int i) div 8 < maxBytes b0"
      using fit nb' by simp
    then have c4: "nat (?base + int i) div 8 < length (data b0)"
      using wf0 d by (simp add: wf_bitmap_def)
    have c3: "\<exists>cnt. rd (pages b0) page = Inr cnt \<and> int i < cnt"
      using p0 len ps r(1) that by (simp add: rd_def)
    show ?thesis
      unfolding accepts_def using g pg b0(3) c2 c3 c4 by simp
  qed
  show ?thesis
    using b0(1) ps acc by blast
qed

lemma slot_index_iff:
  assumes "0 \<le> base"
  shows "(\<exists>i\<in>set [0..<n]. j = nat (base + int i) \<and> P i) \<longleftrightarrow>
    (\<exists>i<n. int j = base + int i \<and> P i)"
proof
  assume "\<exists>i\<in>set [0..<n]. j = nat (base + int i) \<and> P i"
  then obtain i where "i < n" "j = nat (base + int i)" "P i"
    by auto
  with assms show "\<exists>i<n. int j = base + int i \<and> P i"
    by (intro exI [of _ i]) simp
next
  assume "\<exists>i<n. int j = base + int i \<and> P i"
  then obtain i where "i < n" "int j = base + int i" "P i"
    by auto
  then have "i \<in> set [0..<n]" "j = nat (base + int i)"
    by simp_all
  with \<open>P i\<close> show "\<exists>i\<in>set [0..<n]. j = nat (base + int i) \<and> P i"
    by blast
qed

lemma add_heap_items_eq:
  assumes mx: "MaxHeapTuplesPerPage h \<le> 8 * PALLOC_CHUNK"
    and np: "next_page b page" and pg: "page < npages b"
    and n: "int (length (pd_linp pg)) \<le> MaxHeapTuplesPerPage h"
    and r: "0 \<le> first_item b page" "first_item b page + int (length (pd_linp pg)) + 7 \<le> INT_MAX"
  shows "\<exists>b0 b1 b'. bitmap_add_page h b page (int (length (pd_linp pg))) = Inr b0 \<and>
    for_items (heap_mark pg page) [0..<length (pd_linp pg)] (b0, 0) = Inr (b1, 0) \<and>
    for_items (heap_unmark pg page) [0..<length (pd_linp pg)] (b1, 0) = Inr (b', 0) \<and>
    bitmap_add_heap_items h b pg page = Inr (0, b') \<and>
    same_layout b0 b1 \<and> same_layout b0 b' \<and>
    (\<forall>j. bit_at b1 j \<longleftrightarrow>
       bit_at b0 j \<or> (\<exists>i < length (pd_linp pg). int j = first_item b page + int i \<and>
                        ItemIdIsUsed (pd_linp pg ! i))) \<and>
    (\<forall>j. bit_at b' j \<longleftrightarrow>
       bit_at b1 j \<and> \<not> (\<exists>i < length (pd_linp pg). int j = first_item b page + int i \<and>
                           HeapTupleHeaderIsHeapOnly pg (pd_linp pg ! i)))"
proof -
  let ?n = "length (pd_linp pg)"
  let ?f = "\<lambda>i. nat (first_item b page + int i)"
  from add_page_accepts [OF mx np pg n r]
  obtain b0 where b0: "bitmap_add_page h b page (int ?n) = Inr b0"
    "\<forall>i < ?n. accepts b0 page (int i) (?f i)"
    by blast
  have a0: "\<forall>i\<in>set [0..<?n]. i < ?n \<and> accepts b0 page (int i) (?f i)"
    using b0(2) by simp
  from heap_mark_loop [OF a0, of 0]
  obtain b1 where b1: "for_items (heap_mark pg page) [0..<?n] (b0, 0) = Inr (b1, 0)"
    "same_layout b0 b1"
    "\<And>j. bit_at b1 j \<longleftrightarrow>
       bit_at b0 j \<or> (\<exists>i\<in>set [0..<?n]. j = ?f i \<and> ItemIdIsUsed (pd_linp pg ! i))"
    by blast
  have a1: "\<forall>i\<in>set [0..<?n]. i < ?n \<and> accepts b1 page (int i) (?f i)"
    using a0 b1(2) by (auto intro: accepts_same_layout)
  from heap_unmark_loop [OF a1, of 0]
  obtain b' where b': "for_items (heap_unmark pg page) [0..<?n] (b1, 0) = Inr (b', 0)"
    "same_layout b1 b'"
    "\<And>j. bit_at b' j \<longleftrightarrow>
       bit_at b1 j \<and>
       \<not> (\<exists>i\<in>set [0..<?n]. j = ?f i \<and> HeapTupleHeaderIsHeapOnly pg (pd_linp pg ! i))"
    by blast
  have res: "bitmap_add_heap_items h b pg page = Inr (0, b')"
    using b0(1) b1(1) b'(1) by (simp add: bitmap_add_heap_items_def PageGetMaxOffsetNumber_def)
  have l: "same_layout b0 b'"
    using b1(2) b'(2) by (rule same_layout_trans)
  show ?thesis
    using b0(1) b1(1,2) b'(1) res l b1(3) b'(3)
    unfolding slot_index_iff [OF r(1)] by blast
qed

lemma heap_unmark_clears:
  assumes "item < length (pd_linp pg)" "HeapTupleHeaderIsHeapOnly pg (pd_linp pg ! item)"
    "bitmap_get_item bitmap page (int item) = Inr True"
  shows "\<exists>idx b'. GetBitmapIndex bitmap page (int item) = Inr (int idx) \<and>
    heap_unmark pg page item (bitmap, nerrs) = Inr (b', nerrs) \<and>
    \<not> bit_at b' idx \<and> (\<forall>i. i \<noteq> idx \<longrightarrow> bit_at b' i = bit_at bitmap i) \<and>
    npages b' = npages bitmap \<and> nbytes b' = nbytes bitmap \<and>
    maxBytes b' = maxBytes bitmap \<and> pages b' = pages bitmap"
proof -
  from bitmap_get_item_True [OF assms(3)]
  obtain idx cnt where g: "GetBitmapIndex bitmap page (int item) = Inr idx" "0 \<le> idx"
    "page < npages bitmap" "idx div 8 \<le> nbytes bitmap" "rd (pages bitmap) page = Inr cnt"
    "int item < cnt" "idx div 8 < int (length (data bitmap))"
    by blast
  let ?k = "nat (idx div 8)"
  let ?w = "data bitmap ! ?k AND NOT (push_bit (nat (idx mod 8)) 1)"
  let ?res = "bitmap\<lparr>data := (data bitmap)[?k := ?w]\<rparr>"
  have s: "bitmap_set_item bitmap page (int item) False = Inr (True, ?res)"
    using bitmap_set_item_in [OF g, of False] by simp
  have k: "?k < length (data bitmap)"
    using g(2,7) by (simp add: nat_less_iff pos_imp_zdiv_nonneg_iff)
  have dm: "nat idx div 8 = ?k" "nat idx mod 8 = nat (idx mod 8)"
    using g(2) by (simp_all add: nat_div_distrib nat_mod_distrib)
  have u: "heap_unmark pg page item (bitmap, nerrs) = Inr (?res, nerrs)"
    using assms s by (simp add: heap_unmark_def rd_in)
  have c: "\<not> bit_at ?res (nat idx)"
    using k dm by (simp add: bit_at_update bit_clear_byte)
  have o: "bit_at ?res i = bit_at bitmap i" if "i \<noteq> nat idx" for i
  proof (cases "i div 8 = ?k")
    case True
    with that dm have "i mod 8 \<noteq> nat (idx mod 8)"
      by (metis div_mult_mod_eq)
    with True k show ?thesis
      by (simp add: bit_at_update bit_clear_byte) (simp add: bit_at_def)
  next
    case False
    with k show ?thesis by (simp add: bit_at_update)
  qed
  show ?thesis
    using g(1,2) u c o by (intro exI [of _ "nat idx"] exI [of _ ?res]) simp
qed

lemma heap_unmark_keeps:
  assumes "item < length (pd_linp pg)"
    "\<not> HeapTupleHeaderIsHeapOnly pg (pd_linp pg ! item) \<or>
     bitmap_get_item bitmap page (int item) = Inr False"
  shows "heap_unmark pg page item (bitmap, nerrs) = Inr (bitmap, nerrs)"
  using assms by (auto simp add: heap_unmark_def rd_in)

lemma upt_0_3: "[0..<3] = [0, 1, 2]"
  by (simp add: numeral_3_eq_3 upt_rec)

lemma heap_page_of_three:
  assumes wf: "wf_bitmap b" and b: "1 \<le> npages b" "1 \<le> maxBytes b" "data b ! 0 = 0"
    and mx: "3 \<le> MaxHeapTuplesPerPage h"
    and pg: "length (pd_linp pg) = 3"
      "ItemIdIsUsed (pd_linp pg ! 0)" "ItemIdIsUsed (pd_linp pg ! 1)"
      "ItemIdIsUsed (pd_linp pg ! 2)"
      "\<not> HeapTupleHeaderIsHeapOnly pg (pd_linp pg ! 0)"
      "\<not> HeapTupleHeaderIsHeapOnly pg (pd_linp pg ! 1)"
      "HeapTupleHeaderIsHeapOnly pg (pd_linp pg ! 2)"
  shows "bitmap_add_heap_items h b pg 0 =
    Inr (0, b\<lparr>pages := (pages b)[0 := 3], nbytes := 1, data := (data b)[0 := 3]\<rparr>)"
proof -
  define B where "B w = b\<lparr>pages := (pages b)[0 := 3], nbytes := 1, data := (data b)[0 := w]\<rparr>"
    for w
  have len: "0 < length (pages b)" "0 < length (data b)"
    using wf b by (simp_all add: wf_bitmap_def)
  have B0: "b\<lparr>pages := (pages b)[0 := 3], nbytes := 1\<rparr> = B 0"
    using list_update_id [of "data b" 0] b(3) by (simp add: B_def)
  have add: "bitmap_add_page h b 0 3 = Inr (B 0)"
    using bitmap_add_page_eq [OF wf, of 0 3 h] b mx by (simp add: Let_def c_div_nonneg B0)
  have idx: "GetBitmapIndex (B w) 0 i = Inr i" for w i
    by (simp add: GetBitmapIndex_def)
  have cnt: "rd (pages (B w)) 0 = Inr 3" for w
    using len by (simp add: B_def rd_in)
  have set0: "bitmap_set_item (B w) 0 0 True = Inr (True, B (w OR 1))" for w
    using bitmap_set_item_in [OF idx [of w 0] _ _ _ cnt, of True] len b
    by (simp add: B_def)
  have set1: "bitmap_set_item (B w) 0 1 True = Inr (True, B (w OR 2))" for w
    using bitmap_set_item_in [OF idx [of w 1] _ _ _ cnt, of True] len b
    by (simp add: B_def)
  have set2: "bitmap_set_item (B w) 0 2 True = Inr (True, B (w OR 4))" for w
    using bitmap_set_item_in [OF idx [of w 2] _ _ _ cnt, of True] len b
    by (simp add: B_def)
  have clr2: "bitmap_set_item (B w) 0 2 False = Inr (True, B (w AND NOT 4))" for w
    using bitmap_set_item_in [OF idx [of w 2] _ _ _ cnt, of False] len b
    by (simp add: B_def)
  have get2: "bitmap_get_item (B w) 0 2 = Inr (w \<noteq> 0)" for w
    using bitmap_get_item_in [OF idx [of w 2] _ _ _ cnt] len b
    by (simp add: B_def)
  have rdl: "rd (pd_linp pg) 0 = Inr (pd_linp pg ! 0)" "rd (pd_linp pg) 1 = Inr (pd_linp pg ! 1)"
    "rd (pd_linp pg) 2 = Inr (pd_linp pg ! 2)"
    using pg(1) by (simp_all add: rd_def)
  have first: "for_items (heap_mark pg 0) [0..<3] (B 0, 0) = Inr (B 7, 0)"
    unfolding upt_0_3 using pg rdl by (simp add: heap_mark_def set0 set1 set2)
  have second: "for_items (heap_unmark pg 0) [0..<3] (B 7, 0) = Inr (B 3, 0)"
    unfolding upt_0_3 using pg rdl by (simp add: heap_unmark_def get2 clr2)
  show ?thesis
    using pg(1) by (simp add: bitmap_add_heap_items_def PageGetMaxOffsetNumber_def add
        first second) (simp add: B_def)
qed

lemma slot_at:
  "(\<exists>i<n. int j = base + int i \<and> P i) \<longleftrightarrow>
   base \<le> int j \<and> int j < base + int n \<and> P (nat (int j - base))"
proof
  assume "\<exists>i<n. int j = base + int i \<and> P i"
  then obtain i where i: "i < n" "int j = base + int i" "P i"
    by auto
  then have "nat (int j - base) = i"
    by simp
  with i show "base \<le> int j \<and> int j < base + int n \<and> P (nat (int j - base))"
    by simp
next
  assume a: "base \<le> int j \<and> int j < base + int n \<and> P (nat (int j - base))"
  then show "\<exists>i<n. int j = base + int i \<and> P i"
    by (intro exI [of _ "nat (int j - base)"]) auto
qed

text \<open>
  Claim C1 gives the scenario for every heap page with three used slots on which the
  tuple of slot 2 is heap-only and the tuple of slot 1 is not.  On \<open>both_hot_page\<close> the
  tuple of slot 0 is heap-only as well: added as page 0 to a fresh bitmap, the call
  returns the error count 0 and leaves bit 0 clear, bit 1 set and bit 2 clear.
\<close>

theorem heap_only_slot_0_cleared:
  "map_sum id (\<lambda>(nerrs, b). (nerrs, bit_at b 0, bit_at b 1, bit_at b 2))
     (bindE (bitmap_init host_8k 1)
        (\<lambda>b0. bitmap_add_heap_items host_8k b0 both_hot_page 0)) =
     Inr (0, False, True, False) \<and>
   length (pd_linp both_hot_page) = 3 \<and>
   ItemIdIsUsed (pd_linp both_hot_page ! 0) \<and> ItemIdIsUsed (pd_linp both_hot_page ! 1) \<and>
   ItemIdIsUsed (pd_linp both_hot_page ! 2) \<and>
   HeapTupleHeaderIsHeapOnly both_hot_page (pd_linp both_hot_page ! 2) \<and>
   \<not> HeapTupleHeaderIsHeapOnly both_hot_page (pd_linp both_hot_page ! 1)"
proof -
  let ?init = "\<lparr>npages = 1, nbytes = 0, maxBytes = 1024,
         pages = [0], data = replicate 1024 0\<rparr>"
  let ?reg = "?init\<lparr>pages := [3], nbytes := 1\<rparr>"
  have i: "bitmap_init host_8k 1 = Inr ?init"
    using bitmap_init_eq [of 1 host_8k] by (simp add: PALLOC_CHUNK_def host_8k_def)
  have w: "wf_bitmap ?init"
    by (simp add: wf_bitmap_def)
  have np: "next_page ?init 0"
    using w by (simp add: next_page_def PALLOC_CHUNK_def)
  have mx: "MaxHeapTuplesPerPage host_8k \<le> 8 * PALLOC_CHUNK"
    by (simp add: host_8k_def PALLOC_CHUNK_def)
  have pg: "length (pd_linp both_hot_page) = 3"
    "ItemIdIsUsed (pd_linp both_hot_page ! 0)" "ItemIdIsUsed (pd_linp both_hot_page ! 1)"
    "ItemIdIsUsed (pd_linp both_hot_page ! 2)"
    "HeapTupleHeaderIsHeapOnly both_hot_page (pd_linp both_hot_page ! 0)"
    "\<not> HeapTupleHeaderIsHeapOnly both_hot_page (pd_linp both_hot_page ! 1)"
    "HeapTupleHeaderIsHeapOnly both_hot_page (pd_linp both_hot_page ! 2)"
    by (simp_all add: both_hot_page_def ItemIdIsUsed_def HeapTupleHeaderIsHeapOnly_def)
  have add: "bitmap_add_page host_8k ?init 0 3 = Inr ?reg"
    using bitmap_add_page_eq [OF w, of 0 3 host_8k]
    by (simp add: Let_def host_8k_def c_div_nonneg)
  have f: "first_item ?init 0 = 0"
    by (simp add: first_item_def)
  have "\<exists>b0 b1 b'. bitmap_add_page host_8k ?init 0 (int (length (pd_linp both_hot_page))) = Inr b0 \<and>
    for_items (heap_mark both_hot_page 0) [0..<length (pd_linp both_hot_page)] (b0, 0) = Inr (b1, 0) \<and>
    for_items (heap_unmark both_hot_page 0) [0..<length (pd_linp both_hot_page)] (b1, 0) = Inr (b', 0) \<and>
    bitmap_add_heap_items host_8k ?init both_hot_page 0 = Inr (0, b') \<and>
    same_layout b0 b1 \<and> same_layout b0 b' \<and>
    (\<forall>j. bit_at b1 j \<longleftrightarrow>
       bit_at b0 j \<or> (\<exists>i < length (pd_linp both_hot_page). int j = first_item ?init 0 + int i \<and>
                        ItemIdIsUsed (pd_linp both_hot_page ! i))) \<and>
    (\<forall>j. bit_at b' j \<longleftrightarrow>
       bit_at b1 j \<and> \<not> (\<exists>i < length (pd_linp both_hot_page). int j = first_item ?init 0 + int i \<and>
                           HeapTupleHeaderIsHeapOnly both_hot_page (pd_linp both_hot_page ! i)))"
    using mx np by (intro add_heap_items_eq) (simp_all add: pg host_8k_def INT_MAX_def f)
  then obtain b1 b' where r: "bitmap_add_heap_items host_8k ?init both_hot_page 0 = Inr (0, b')"
    and m: "\<And>j. bit_at b1 j \<longleftrightarrow>
       bit_at ?reg j \<or> (0 \<le> int j \<and> int j < 0 + int 3 \<and>
                        ItemIdIsUsed (pd_linp both_hot_page ! nat (int j - 0)))"
    and u: "\<And>j. bit_at b' j \<longleftrightarrow>
       bit_at b1 j \<and> \<not> (0 \<le> int j \<and> int j < 0 + int 3 \<and>
          HeapTupleHeaderIsHeapOnly both_hot_page (pd_linp both_hot_page ! nat (int j - 0)))"
    unfolding slot_at f pg(1) using add by (auto simp add: pg(1))
  have "\<not> bit_at b' 0" "bit_at b' 1" "\<not> bit_at b' 2"
    using pg by (simp_all add: u m)
  with i r pg show ?thesis
    by simp
qed

text \<open>
  Claim C1 as the code has it.  The scenario holds when the tuple of slot 0 is not
  heap-only either: a heap page with three used slots, of which only the tuple at slot
  2 is heap-only, is added as page 0 to a fresh bitmap; the call returns the error count
  0 and leaves bits 0 and 1 set and bit 2 clear.

  In general, for a heap page with any number of slots (at most
  \<^verbatim>\<open>MaxHeapTuplesPerPage\<close>, which one chunk of the buffer holds) added as the next
  page \<open>page\<close>, with item totals that fit an \<^verbatim>\<open>int\<close>: the call registers the page,
  runs both passes and returns the error count 0; the first pass sets the bits of the
  used slots, the second pass clears the bits of the slots whose tuple is heap-only,
  and no other bit and no part of the layout changes.

  The second pass one slot at a time: when the tuple is heap-only and
  \<^verbatim>\<open>bitmap_get_item\<close> returns true, the bit at the global index of the slot is
  cleared, no other bit and no other field changes, and no error is counted; when the
  tuple is not heap-only or \<^verbatim>\<open>bitmap_get_item\<close> returns false, nothing changes.
\<close>

theorem heap_items_hot_resolution:
  "(1 \<le> n \<and> 3 \<le> MaxHeapTuplesPerPage h \<and> length (pd_linp tp) = 3 \<and>
    ItemIdIsUsed (pd_linp tp ! 0) \<and> ItemIdIsUsed (pd_linp tp ! 1) \<and>
    ItemIdIsUsed (pd_linp tp ! 2) \<and>
    \<not> HeapTupleHeaderIsHeapOnly tp (pd_linp tp ! 0) \<and>
    \<not> HeapTupleHeaderIsHeapOnly tp (pd_linp tp ! 1) \<and>
    HeapTupleHeaderIsHeapOnly tp (pd_linp tp ! 2) \<longrightarrow>
    (\<exists>b0 b. bitmap_init h n = Inr b0 \<and> bitmap_add_heap_items h b0 tp 0 = Inr (0, b) \<and>
       bit_at b 0 \<and> bit_at b 1 \<and> \<not> bit_at b 2)) \<and>
   (MaxHeapTuplesPerPage h \<le> 8 * PALLOC_CHUNK \<and> next_page b page \<and> page < npages b \<and>
    int (length (pd_linp pg)) \<le> MaxHeapTuplesPerPage h \<and>
    0 \<le> first_item b page \<and> first_item b page + int (length (pd_linp pg)) + 7 \<le> INT_MAX \<longrightarrow>
    (\<exists>b0 b1 b'. bitmap_add_page h b page (int (length (pd_linp pg))) = Inr b0 \<and>
       for_items (heap_mark pg page) [0..<length (pd_linp pg)] (b0, 0) = Inr (b1, 0) \<and>
       for_items (heap_unmark pg page) [0..<length (pd_linp pg)] (b1, 0) = Inr (b', 0) \<and>
       bitmap_add_heap_items h b pg page = Inr (0, b') \<and>
       same_layout b0 b1 \<and> same_layout b0 b' \<and>
       (\<forall>j. bit_at b1 j \<longleftrightarrow>
          bit_at b0 j \<or> (\<exists>i < length (pd_linp pg). int j = first_item b page + int i \<and>
                           ItemIdIsUsed (pd_linp pg ! i))) \<and>
       (\<forall>j. bit_at b' j \<longleftrightarrow>
          bit_at b1 j \<and> \<not> (\<exists>i < length (pd_linp pg). int j = first_item b page + int i \<and>
                              HeapTupleHeaderIsHeapOnly pg (pd_linp pg ! i))))) \<and>
   (item < length (pd_linp sp) \<and> HeapTupleHeaderIsHeapOnly sp (pd_linp sp ! item) \<and>
    bitmap_get_item bitmap spage (int item) = Inr True \<longrightarrow>
    (\<exists>idx c. GetBitmapIndex bitmap spage (int item) = Inr (int idx) \<and>
       heap_unmark sp spage item (bitmap, nerrs) = Inr (c, nerrs) \<and>
       \<not> bit_at c idx \<and> (\<forall>i. i \<noteq> idx \<longrightarrow> bit_at c i = bit_at bitmap i) \<and>
       npages c = npages bitmap \<and> nbytes c = nbytes bitmap \<and>
       maxBytes c = maxBytes bitmap \<and> pages c = pages bitmap)) \<and>
   (item < length (pd_linp sp) \<and>
    (\<not> HeapTupleHeaderIsHeapOnly sp (pd_linp sp ! item) \<or>
     bitmap_get_item bitmap spage (int item) = Inr False) \<longrightarrow>
    heap_unmark sp spage item (bitmap, nerrs) = Inr (bitmap, nerrs))"
proof (intro conjI impI)
  assume a: "1 \<le> n \<and> 3 \<le> MaxHeapTuplesPerPage h \<and> length (pd_linp tp) = 3 \<and>
    ItemIdIsUsed (pd_linp tp ! 0) \<and> ItemIdIsUsed (pd_linp tp ! 1) \<and>
    ItemIdIsUsed (pd_linp tp ! 2) \<and>
    \<not> HeapTupleHeaderIsHeapOnly tp (pd_linp tp ! 0) \<and>
    \<not> HeapTupleHeaderIsHeapOnly tp (pd_linp tp ! 1) \<and>
    HeapTupleHeaderIsHeapOnly tp (pd_linp tp ! 2)"
  let ?m = "PALLOC_CHUNK * (n div PALLOC_CHUNK div 8 + 1)"
  let ?init = "\<lparr>npages = n, nbytes = 0, maxBytes = ?m,
         pages = map (junk_int h) [0..<nat n], data = replicate (nat ?m) 0\<rparr>"
  let ?res = "?init\<lparr>pages := (pages ?init)[0 := 3], nbytes := 1, data := (data ?init)[0 := 3]\<rparr>"
  have m: "1024 \<le> ?m"
    using a by (simp add: PALLOC_CHUNK_def pos_imp_zdiv_nonneg_iff)
  have i: "bitmap_init h n = Inr ?init"
    using a by (intro bitmap_init_eq) simp
  have w: "wf_bitmap ?init" "1 \<le> npages ?init" "1 \<le> maxBytes ?init" "data ?init ! 0 = 0"
    using a m by (simp_all add: wf_bitmap_def)
  have r: "bitmap_add_heap_items h ?init tp 0 = Inr (0, ?res)"
    using a by (intro heap_page_of_three [OF w]) simp_all
  have bits: "bit_at ?res 0" "bit_at ?res 1" "\<not> bit_at ?res 2"
    using m by (simp_all add: bit_at_def)
  show "\<exists>b0 b. bitmap_init h n = Inr b0 \<and> bitmap_add_heap_items h b0 tp 0 = Inr (0, b) \<and>
       bit_at b 0 \<and> bit_at b 1 \<and> \<not> bit_at b 2"
    using i r bits by blast
next
  assume "MaxHeapTuplesPerPage h \<le> 8 * PALLOC_CHUNK \<and> next_page b page \<and> page < npages b \<and>
    int (length (pd_linp pg)) \<le> MaxHeapTuplesPerPage h \<and>
    0 \<le> first_item b page \<and> first_item b page + int (length (pd_linp pg)) + 7 \<le> INT_MAX"
  then show "\<exists>b0 b1 b'. bitmap_add_page h b page (int (length (pd_linp pg))) = Inr b0 \<and>
       for_items (heap_mark pg page) [0..<length (pd_linp pg)] (b0, 0) = Inr (b1, 0) \<and>
       for_items (heap_unmark pg page) [0..<length (pd_linp pg)] (b1, 0) = Inr (b', 0) \<and>
       bitmap_add_heap_items h b pg page = Inr (0, b') \<and>
       same_layout b0 b1 \<and> same_layout b0 b' \<and>
       (\<forall>j. bit_at b1 j \<longleftrightarrow>
          bit_at b0 j \<or> (\<exists>i < length (pd_linp pg). int j = first_item b page + int i \<and>
                           ItemIdIsUsed (pd_linp pg ! i))) \<and>
       (\<forall>j. bit_at b' j \<longleftrightarrow>
          bit_at b1 j \<and> \<not> (\<exists>i < length (pd_linp pg). int j = first_item b page + int i \<and>
                              HeapTupleHeaderIsHeapOnly pg (pd_linp pg ! i)))"
    by (intro add_heap_items_eq) simp_all
next
  assume "item < length (pd_linp sp) \<and> HeapTupleHeaderIsHeapOnly sp (pd_linp sp ! item) \<and>
    bitmap_get_item bitmap spage (int item) = Inr True"
  then show "\<exists>idx c. GetBitmapIndex bitmap spage (int item) = Inr (int idx) \<and>
       heap_unmark sp spage item (bitmap, nerrs) = Inr (c, nerrs) \<and>
       \<not> bit_at c idx \<and> (\<forall>i. i \<noteq> idx \<longrightarrow> bit_at c i = bit_at bitmap i) \<and>
       npages c = npages bitmap \<and> nbytes c = nbytes bitmap \<and>
       maxBytes c = maxBytes bitmap \<and> pages c = pages bitmap"
    by (intro heap_unmark_clears) simp_all
next
  assume "item < length (pd_linp sp) \<and>
    (\<not> HeapTupleHeaderIsHeapOnly sp (pd_linp sp ! item) \<or>
     bitmap_get_item bitmap spage (int item) = Inr False)"
  then show "heap_unmark sp spage item (bitmap, nerrs) = Inr (bitmap, nerrs)"
    by (intro heap_unmark_keeps) simp_all
qed

theorem heap_items_hot_resolution_witness:
  "(\<exists>b0 b. bitmap_init host_8k 1 = Inr b0 \<and>
      bitmap_add_heap_items host_8k b0 hot_page 0 = Inr (0, b) \<and>
      bit_at b 0 \<and> bit_at b 1 \<and> \<not> bit_at b 2) \<and>
   next_page ten_items 1 \<and> first_item ten_items 1 = 10 \<and> length (pd_linp chain_page) = 4 \<and>
   (\<exists>b'. bitmap_add_heap_items host_8k ten_items chain_page 1 = Inr (0, b') \<and>
      pages b' = [10, 14] \<and> nbytes b' = 2 \<and>
      \<not> bit_at b' 9 \<and> bit_at b' 10 \<and> \<not> bit_at b' 11 \<and> \<not> bit_at b' 12 \<and> bit_at b' 13 \<and>
      \<not> bit_at b' 14) \<and>
   HeapTupleHeaderIsHeapOnly hot_page (pd_linp hot_page ! 2) \<and>
   bitmap_get_item three_marked 0 2 = Inr True \<and>
   (\<exists>b'. heap_unmark hot_page 0 2 (three_marked, 0) = Inr (b', 0) \<and>
      bit_at b' 0 \<and> bit_at b' 1 \<and> \<not> bit_at b' 2 \<and> pages b' = pages three_marked) \<and>
   \<not> HeapTupleHeaderIsHeapOnly hot_page (pd_linp hot_page ! 1) \<and>
   heap_unmark hot_page 0 1 (three_marked, 0) = Inr (three_marked, 0)"
proof -
  have pg: "length (pd_linp hot_page) = 3"
    "ItemIdIsUsed (pd_linp hot_page ! 0)" "ItemIdIsUsed (pd_linp hot_page ! 1)"
    "ItemIdIsUsed (pd_linp hot_page ! 2)"
    "\<not> HeapTupleHeaderIsHeapOnly hot_page (pd_linp hot_page ! 0)"
    "\<not> HeapTupleHeaderIsHeapOnly hot_page (pd_linp hot_page ! 1)"
    "HeapTupleHeaderIsHeapOnly hot_page (pd_linp hot_page ! 2)"
    by (simp_all add: hot_page_def ItemIdIsUsed_def HeapTupleHeaderIsHeapOnly_def)
  have mx: "3 \<le> MaxHeapTuplesPerPage host_8k" "MaxHeapTuplesPerPage host_8k \<le> 8 * PALLOC_CHUNK"
    by (simp_all add: host_8k_def PALLOC_CHUNK_def)
  have g: "bitmap_get_item three_marked 0 (int 2) = Inr True"
    using bitmap_get_item_in [of three_marked 0 2 2 3]
    by (simp add: three_marked_def GetBitmapIndex_def rd_in)
  have i: "GetBitmapIndex three_marked 0 (int 2) = Inr (int 2)"
    by (simp add: GetBitmapIndex_def)
  have bits: "bit_at three_marked 0" "bit_at three_marked 1"
    by (simp_all add: bit_at_def three_marked_def)
  have w: "wf_bitmap ten_items"
    by (simp add: wf_bitmap_def ten_items_def)
  have np: "next_page ten_items 1"
    using w by (simp add: next_page_def ten_items_def PALLOC_CHUNK_def INT_MAX_def c_div_nonneg)
  have f: "first_item ten_items 1 = 10"
    by (simp add: first_item_def ten_items_def)
  have npg: "1 < npages ten_items"
    by (simp add: ten_items_def)
  have cp: "length (pd_linp chain_page) = 4"
    "ItemIdIsUsed (pd_linp chain_page ! 0)" "\<not> ItemIdIsUsed (pd_linp chain_page ! 1)"
    "ItemIdIsUsed (pd_linp chain_page ! 2)" "ItemIdIsUsed (pd_linp chain_page ! 3)"
    "\<not> HeapTupleHeaderIsHeapOnly chain_page (pd_linp chain_page ! 0)"
    "\<not> HeapTupleHeaderIsHeapOnly chain_page (pd_linp chain_page ! 1)"
    "HeapTupleHeaderIsHeapOnly chain_page (pd_linp chain_page ! 2)"
    "\<not> HeapTupleHeaderIsHeapOnly chain_page (pd_linp chain_page ! 3)"
    by (simp_all add: chain_page_def ItemIdIsUsed_def HeapTupleHeaderIsHeapOnly_def)
  let ?reg = "ten_items\<lparr>pages := [10, 14], nbytes := 2\<rparr>"
  have add: "bitmap_add_page host_8k ten_items 1 4 = Inr ?reg"
    using bitmap_add_page_eq [OF w, of 1 4 host_8k]
    by (simp add: Let_def host_8k_def c_div_nonneg ten_items_def)
  have z: "\<not> bit_at ?reg j" if "j < 80" for j
    using that by (simp add: bit_at_def ten_items_def)
  note t = heap_items_hot_resolution [where n = 1 and h = host_8k and tp = hot_page
      and b = ten_items and pg = chain_page and page = 1
      and sp = hot_page and bitmap = three_marked and spage = 0 and nerrs = 0]
  from t [where item = 2] pg mx g
  obtain idx b' where b': "GetBitmapIndex three_marked 0 (int 2) = Inr (int idx)"
    "heap_unmark hot_page 0 2 (three_marked, 0) = Inr (b', 0)" "\<not> bit_at b' idx"
    "\<forall>i. i \<noteq> idx \<longrightarrow> bit_at b' i = bit_at three_marked i"
    "pages b' = pages three_marked"
    by auto
  from b'(1) i have idx: "idx = 2"
    by simp
  have c: "bit_at b' 0" "bit_at b' 1" "\<not> bit_at b' 2"
    using b'(3,4) bits idx by simp_all
  have s: "\<exists>b0 b. bitmap_init host_8k 1 = Inr b0 \<and>
      bitmap_add_heap_items host_8k b0 hot_page 0 = Inr (0, b) \<and>
      bit_at b 0 \<and> bit_at b 1 \<and> \<not> bit_at b 2"
    using t [where item = 2] pg mx by simp
  have k: "heap_unmark hot_page 0 1 (three_marked, 0) = Inr (three_marked, 0)"
    using t [where item = 1] pg by simp
  have h: "MaxHeapTuplesPerPage host_8k \<le> 8 * PALLOC_CHUNK \<and> next_page ten_items 1 \<and>
    1 < npages ten_items \<and>
    int (length (pd_linp chain_page)) \<le> MaxHeapTuplesPerPage host_8k \<and>
    0 \<le> first_item ten_items 1 \<and>
    first_item ten_items 1 + int (length (pd_linp chain_page)) + 7 \<le> INT_MAX"
    using mx np npg by (simp add: f cp(1) host_8k_def INT_MAX_def)
  from t [where item = 2, THEN conjunct2, THEN conjunct1, rule_format, OF h]
  obtain c1 c' where r: "bitmap_add_heap_items host_8k ten_items chain_page 1 = Inr (0, c')"
    and l: "same_layout ?reg c'"
    and m: "\<And>j. bit_at c1 j \<longleftrightarrow>
       bit_at ?reg j \<or> (10 \<le> int j \<and> int j < 10 + int 4 \<and>
                        ItemIdIsUsed (pd_linp chain_page ! nat (int j - 10)))"
    and u: "\<And>j. bit_at c' j \<longleftrightarrow>
       bit_at c1 j \<and> \<not> (10 \<le> int j \<and> int j < 10 + int 4 \<and>
          HeapTupleHeaderIsHeapOnly chain_page (pd_linp chain_page ! nat (int j - 10)))"
    unfolding slot_at f cp(1) using add by (auto simp add: cp(1))
  have cb: "\<not> bit_at c' 9" "bit_at c' 10" "\<not> bit_at c' 11" "\<not> bit_at c' 12" "bit_at c' 13"
    "\<not> bit_at c' 14"
    using cp by (simp_all add: u m z)
  have cl: "pages c' = [10, 14]" "nbytes c' = 2"
    using l by (simp_all add: same_layout_def)
  have "\<exists>b'. bitmap_add_heap_items host_8k ten_items chain_page 1 = Inr (0, b') \<and>
      pages b' = [10, 14] \<and> nbytes b' = 2 \<and>
      \<not> bit_at b' 9 \<and> bit_at b' 10 \<and> \<not> bit_at b' 11 \<and> \<not> bit_at b' 12 \<and> bit_at b' 13 \<and>
      \<not> bit_at b' 14"
    using r cb cl by blast
  with s k show ?thesis
    using pg g b'(2,5) c np f cp(1) by auto
qed

section \<open>Index pages\<close>












section \<open>Counting the differences of two bitmaps\<close>














section \<open>The base64 encoding\<close>


lemma bit_byte: "bit (x :: 8 word) n \<Longrightarrow> n < 8"
  by (auto dest: bit_imp_le_length)

lemma bit_63_int: "bit (63 :: int) n \<longleftrightarrow> n < 6"
proof -
  have "bit (mask 6 :: int) n \<longleftrightarrow> n < 6"
    by (auto simp add: bit_mask_iff)
  then show ?thesis
    by (simp add: mask_eq_exp_minus_1)
qed

lemma below_6: "n < 6 \<Longrightarrow> n = 0 \<or> n = 1 \<or> n = 2 \<or> n = 3 \<or> n = 4 \<or> n = (5::nat)"
  by arith

lemma unat_sextet_eqI:
  fixes x :: "32 word" and y :: "8 word"
  assumes "\<And>n. n < 6 \<Longrightarrow> bit (x AND 0x3f) n = bit y n" "\<not> bit y 6" "\<not> bit y 7"
  shows "unat (x AND 0x3f) = unat y"
proof -
  have "x AND 0x3f = ucast y"
  proof (rule bit_word_eqI)
    fix n assume "n < LENGTH(32)"
    show "bit (x AND 0x3f) n = bit (ucast y :: 32 word) n"
    proof (cases "n < 6")
      case True
      with assms(1) [of n] show ?thesis
        by (simp add: bit_simps)
    next
      case False
      have "\<not> bit y n"
      proof (cases "n = 6 \<or> n = 7")
        case True
        with assms(2,3) show ?thesis by auto
      next
        case f: False
        with False have "8 \<le> n" by arith
        then show ?thesis by (auto dest: bit_byte)
      qed
      with False show ?thesis
        by (simp add: bit_simps bit_63_int)
    qed
  qed
  moreover have "unat y < 2 ^ 32"
    using unsigned_less [of y, where ?'a = nat] by simp
  ultimately show ?thesis
    by (simp add: unsigned_ucast_eq take_bit_nat_eq_self)
qed

lemma bit_3_int: "bit (3 :: int) n \<longleftrightarrow> n < 2"
proof -
  have "bit (mask 2 :: int) n \<longleftrightarrow> n < 2"
    by (auto simp add: bit_mask_iff)
  then show ?thesis
    by (simp add: mask_eq_exp_minus_1)
qed

lemma bit_15_int: "bit (15 :: int) n \<longleftrightarrow> n < 4"
proof -
  have "bit (mask 4 :: int) n \<longleftrightarrow> n < 4"
    by (auto simp add: bit_mask_iff)
  then show ?thesis
    by (simp add: mask_eq_exp_minus_1)
qed

lemma bit_byte_high: "8 \<le> n \<Longrightarrow> bit (x :: 8 word) n \<longleftrightarrow> False"
  by (auto dest: bit_byte)

lemmas bit_consts = bit_3_int bit_15_int bit_63_int bit_byte_high

lemma group_digits:
  fixes a b c :: "8 word"
  assumes "\<not> bit b 7" "\<not> bit c 7"
  defines "buf \<equiv> push_bit 16 (scast a) OR push_bit 8 (scast b) OR (scast c :: 32 word)"
  shows "digit64 (drop_bit 18 buf) = sextet (drop_bit 2 a)"
    and "digit64 (drop_bit 12 buf) = sextet (push_bit 4 (a AND 3) OR drop_bit 4 b)"
    and "digit64 (drop_bit 6 buf) = sextet (push_bit 2 (b AND 15) OR drop_bit 6 c)"
    and "digit64 buf = sextet (c AND 63)"
proof -
  have "unat (drop_bit 18 buf AND 0x3f) = unat (drop_bit 2 a)"
  proof (rule unat_sextet_eqI)
    fix n :: nat assume "n < 6"
    from below_6 [OF this] show "bit (drop_bit 18 buf AND 0x3f) n = bit (drop_bit 2 a) n"
      using assms(1,2) by (elim disjE) (simp_all add: buf_def bit_simps bit_consts)
  next
    show "\<not> bit (drop_bit 2 a) 6" "\<not> bit (drop_bit 2 a) 7"
      using assms(1,2) by (simp_all add: bit_simps bit_consts)
  qed
  then show "digit64 (drop_bit 18 buf) = sextet (drop_bit 2 a)"
    by (simp add: digit64_def sextet_def)
  have "unat (drop_bit 12 buf AND 0x3f) = unat (push_bit 4 (a AND 3) OR drop_bit 4 b)"
  proof (rule unat_sextet_eqI)
    fix n :: nat assume "n < 6"
    from below_6 [OF this]
    show "bit (drop_bit 12 buf AND 0x3f) n = bit (push_bit 4 (a AND 3) OR drop_bit 4 b) n"
      using assms(1,2) by (elim disjE) (simp_all add: buf_def bit_simps bit_consts)
  next
    show "\<not> bit (push_bit 4 (a AND 3) OR drop_bit 4 b) 6" "\<not> bit (push_bit 4 (a AND 3) OR drop_bit 4 b) 7"
      using assms(1,2) by (simp_all add: bit_simps bit_consts)
  qed
  then show "digit64 (drop_bit 12 buf) = sextet (push_bit 4 (a AND 3) OR drop_bit 4 b)"
    by (simp add: digit64_def sextet_def)
  have "unat (drop_bit 6 buf AND 0x3f) = unat (push_bit 2 (b AND 15) OR drop_bit 6 c)"
  proof (rule unat_sextet_eqI)
    fix n :: nat assume "n < 6"
    from below_6 [OF this]
    show "bit (drop_bit 6 buf AND 0x3f) n = bit (push_bit 2 (b AND 15) OR drop_bit 6 c) n"
      using assms(1,2) by (elim disjE) (simp_all add: buf_def bit_simps bit_consts)
  next
    show "\<not> bit (push_bit 2 (b AND 15) OR drop_bit 6 c) 6" "\<not> bit (push_bit 2 (b AND 15) OR drop_bit 6 c) 7"
      using assms(1,2) by (simp_all add: bit_simps bit_consts)
  qed
  then show "digit64 (drop_bit 6 buf) = sextet (push_bit 2 (b AND 15) OR drop_bit 6 c)"
    by (simp add: digit64_def sextet_def)
  have "unat (buf AND 0x3f) = unat (c AND 63)"
  proof (rule unat_sextet_eqI)
    fix n :: nat assume "n < 6"
    from below_6 [OF this]
    show "bit (buf AND 0x3f) n = bit (c AND 63) n"
      using assms(1,2) by (elim disjE) (simp_all add: buf_def bit_simps bit_consts)
  next
    show "\<not> bit (c AND 63) 6" "\<not> bit (c AND 63) 7"
      using assms(1,2) by (simp_all add: bit_simps bit_consts)
  qed
  then show "digit64 buf = sextet (c AND 63)"
    by (simp add: digit64_def sextet_def)
qed

lemma base64_eq_groups:
  "(case base64_loop xs 0 2 r of (buf, pos, result) \<Rightarrow>
      (if pos \<noteq> 2 then
         result @ [digit64 (drop_bit 18 buf), digit64 (drop_bit 12 buf),
                   if pos = 0 then digit64 (drop_bit 6 buf) else CHR 0x00]
       else result)) = r @ base64_groups xs"
  by (induction xs arbitrary: r rule: base64_groups.induct) (simp_all add: Let_def or.assoc)

lemma c_div_3_nonneg: "0 \<le> a \<Longrightarrow> 0 \<le> c_div a 3"
  by (cases "a = 0") (simp_all add: c_div_def pos_imp_zdiv_nonneg_iff)

lemma base64_eq:
  assumes "0 \<le> n" "n \<le> int (length dat)"
  shows "base64 dat n = Inr (base64_groups (take (nat n) dat) @ [CHR 0x00])"
proof -
  obtain buf pos res where l: "base64_loop (take (nat n) dat) 0 2 [] = (buf, pos, res)"
    by (cases "base64_loop (take (nat n) dat) 0 2 []")
  with base64_eq_groups [of "take (nat n) dat" "[]"]
  have "(if pos \<noteq> 2 then
         res @ [digit64 (drop_bit 18 buf), digit64 (drop_bit 12 buf),
                   if pos = 0 then digit64 (drop_bit 6 buf) else CHR 0x00]
       else res) = base64_groups (take (nat n) dat)"
    by simp
  moreover have "0 \<le> c_div (n + 2) 3"
    using assms(1) by (intro c_div_3_nonneg) simp
  ultimately show ?thesis
    using assms l by (simp add: base64_def)
qed

lemma length_base64_digits: "length base64_digits = 64"
  by (simp add: base64_digits_def)

lemma digit64_in: "digit64 w \<in> set base64_digits"
proof -
  have "w AND 0x3f \<le> 0x3f"
    by (rule word_and_le1)
  then have "unat (w AND 0x3f) < 64"
    by (simp add: word_le_nat_alt)
  then show ?thesis
    by (simp add: digit64_def length_base64_digits)
qed

lemma NUL_not_digit: "CHR 0x00 \<notin> set base64_digits"
  by (simp add: base64_digits_def)

lemma pad_not_digit: "CHR ''='' \<notin> set base64_digits"
  by (simp add: base64_digits_def)

lemma digit64_not_NUL [simp]: "digit64 w \<noteq> CHR 0x00"
  using digit64_in [of w] NUL_not_digit by metis

lemma c_string_groups:
  "c_string (base64_groups [] @ [CHR 0x00]) = []"
  "c_string (base64_groups [a] @ [CHR 0x00]) =
     [digit64 (drop_bit 18 (push_bit 16 (scast a))), digit64 (drop_bit 12 (push_bit 16 (scast a)))]"
  "c_string (base64_groups [a, b] @ [CHR 0x00]) =
     [digit64 (drop_bit 18 (push_bit 16 (scast a) OR push_bit 8 (scast b))),
      digit64 (drop_bit 12 (push_bit 16 (scast a) OR push_bit 8 (scast b))),
      digit64 (drop_bit 6 (push_bit 16 (scast a) OR push_bit 8 (scast b)))]"
  "c_string (base64_groups (a # b # c # rest) @ [CHR 0x00]) =
     [digit64 (drop_bit 18 (push_bit 16 (scast a) OR push_bit 8 (scast b) OR scast c)),
      digit64 (drop_bit 12 (push_bit 16 (scast a) OR push_bit 8 (scast b) OR scast c)),
      digit64 (drop_bit 6 (push_bit 16 (scast a) OR push_bit 8 (scast b) OR scast c)),
      digit64 (push_bit 16 (scast a) OR push_bit 8 (scast b) OR scast c)]
     @ c_string (base64_groups rest @ [CHR 0x00])"
  by (simp_all add: c_string_def Let_def)

lemma groups_alphabet: "set (c_string (base64_groups xs @ [CHR 0x00])) \<subseteq> set base64_digits"
  by (induction xs rule: base64_groups.induct)
    (simp_all only: c_string_groups, simp_all add: digit64_in)

lemma groups_length: "length (c_string (base64_groups xs @ [CHR 0x00])) = (4 * length xs + 2) div 3"
  by (induction xs rule: base64_groups.induct)
    (simp_all only: c_string_groups, simp_all)

lemma groups_standard:
  "\<forall>i < length xs. i mod 3 \<noteq> 0 \<longrightarrow> \<not> bit (xs ! i) 7 \<Longrightarrow>
   standard_base64 xs =
     c_string (base64_groups xs @ [CHR 0x00]) @ replicate ((3 - length xs mod 3) mod 3) CHR ''=''"
proof (induction xs rule: base64_groups.induct)
  case 1
  then show ?case by (simp add: c_string_def)
next
  case (2 a)
  have d: "digit64 (drop_bit 18 (push_bit 16 (scast a))) = sextet (drop_bit 2 a)"
    "digit64 (drop_bit 12 (push_bit 16 (scast a))) = sextet (push_bit 4 (a AND 3))"
    using group_digits [of 0 0 a] by simp_all
  show ?case
    by (simp only: c_string_groups standard_base64.simps d) (simp add: numeral_2_eq_2)
next
  case (3 a b)
  have "(1::nat) < length [a, b]" "(1::nat) mod 3 \<noteq> 0"
    by simp_all
  with 3 have "\<not> bit ([a, b] ! 1) 7"
    by blast
  then have "\<not> bit b 7"
    by simp
  then have d: "digit64 (drop_bit 18 (push_bit 16 (scast a) OR push_bit 8 (scast b))) =
      sextet (drop_bit 2 a)"
    "digit64 (drop_bit 12 (push_bit 16 (scast a) OR push_bit 8 (scast b))) =
      sextet (push_bit 4 (a AND 3) OR drop_bit 4 b)"
    "digit64 (drop_bit 6 (push_bit 16 (scast a) OR push_bit 8 (scast b))) =
      sextet (push_bit 2 (b AND 15))"
    using group_digits [of b 0 a] by simp_all
  show ?case
    by (simp only: c_string_groups standard_base64.simps d) simp
next
  case (4 a b c rest)
  have "(1::nat) < length (a # b # c # rest)" "(1::nat) mod 3 \<noteq> 0"
    "(2::nat) < length (a # b # c # rest)" "(2::nat) mod 3 \<noteq> 0"
    by simp_all
  with 4(2) have "\<not> bit ((a # b # c # rest) ! 1) 7" "\<not> bit ((a # b # c # rest) ! 2) 7"
    by blast+
  then have "\<not> bit b 7" "\<not> bit c 7"
    by simp_all
  note d = group_digits [OF this, of a]
  have "\<forall>i < length rest. i mod 3 \<noteq> 0 \<longrightarrow> \<not> bit (rest ! i) 7"
  proof (intro allI impI)
    fix i assume i: "i < length rest" "i mod 3 \<noteq> 0"
    have n: "(a # b # c # rest) ! (i + 3) = rest ! i"
      by (simp add: numeral_3_eq_3)
    have "i + 3 < length (a # b # c # rest)" "(i + 3) mod 3 \<noteq> 0"
      using i by simp_all
    then have "\<not> bit ((a # b # c # rest) ! (i + 3)) 7"
      using 4(2) by blast
    then show "\<not> bit (rest ! i) 7"
      unfolding n .
  qed
  then have r: "standard_base64 rest =
     c_string (base64_groups rest @ [CHR 0x00]) @ replicate ((3 - length rest mod 3) mod 3) CHR ''=''"
    by (rule 4(1))
  have l: "length (a # b # c # rest) mod 3 = length rest mod 3"
    by simp
  show ?case
    by (simp only: c_string_groups standard_base64.simps d r l append.simps append_assoc)
qed

text \<open>
  Claim C9 says that \<^verbatim>\<open>base64\<close> gives the standard padded encoding, of length
  \<open>4 * ceil(n / 3)\<close>.  For the single byte 0 the function writes \<^verbatim>\<open>AA\<close> and two
  terminators: the string has two characters, not four, and no \<open>=\<close>; the standard
  encoding is \<^verbatim>\<open>AA==\<close>.  For the three bytes 0x00 0x80 0x00 the sign extension of
  the second byte sets the bits of the first: the function gives \<^verbatim>\<open>/4AA\<close>, the
  standard encoding is \<^verbatim>\<open>AIAA\<close>.
\<close>

theorem base64_not_padded:
  "base64 [0] 1 = Inr [CHR ''A'', CHR ''A'', CHR 0x00, CHR 0x00] \<and>
   c_string [CHR ''A'', CHR ''A'', CHR 0x00, CHR 0x00] = ''AA'' \<and>
   standard_base64 [0] = ''AA=='' \<and>
   base64 [0x00, 0x80, 0x00] 3 = Inr [CHR ''/'', CHR ''4'', CHR ''A'', CHR ''A'', CHR 0x00] \<and>
   standard_base64 [0x00, 0x80, 0x00] = ''AIAA''"
proof (intro conjI)
  show "base64 [0] 1 = Inr [CHR ''A'', CHR ''A'', CHR 0x00, CHR 0x00]"
    by (simp add: base64_def Let_def digit64_def base64_digits_def c_div_def)
  show "c_string [CHR ''A'', CHR ''A'', CHR 0x00, CHR 0x00] = ''AA''"
    by (simp add: c_string_def)
  show "standard_base64 [0] = ''AA==''"
    by (simp add: sextet_def base64_digits_def)
  show "base64 [0x00, 0x80, 0x00] 3 = Inr [CHR ''/'', CHR ''4'', CHR ''A'', CHR ''A'', CHR 0x00]"
    by (simp add: base64_def Let_def digit64_def base64_digits_def c_div_def)
  show "standard_base64 [0x00, 0x80, 0x00] = ''AIAA''"
    by (simp add: sextet_def base64_digits_def)
qed

text \<open>
  Claim C9 as the code has it.  For \<open>n\<close> bytes, \<open>0 \<le> n\<close>, \<^verbatim>\<open>base64\<close> returns a
  terminated string of \<open>(4 * n + 2) div 3\<close> characters of the standard base64 alphabet,
  without padding.  When every byte that is not the first of its group of three is
  below 0x80, the string followed by the \<open>=\<close> padding that completes the last group is
  the standard padded encoding of the bytes.
\<close>

theorem base64_unpadded:
  assumes "0 \<le> n" "n \<le> int (length dat)"
  shows "\<exists>s. base64 dat n = Inr s \<and> last s = CHR 0x00 \<and>
    set (c_string s) \<subseteq> set base64_digits \<and>
    length (c_string s) = (4 * nat n + 2) div 3 \<and>
    ((\<forall>i < nat n. i mod 3 \<noteq> 0 \<longrightarrow> \<not> bit (dat ! i) 7) \<longrightarrow>
     standard_base64 (take (nat n) dat) =
       c_string s @ replicate ((3 - nat n mod 3) mod 3) CHR ''='')"
proof -
  let ?xs = "take (nat n) dat"
  let ?s = "base64_groups ?xs @ [CHR 0x00]"
  have l: "length ?xs = nat n"
    using assms by simp
  have e: "base64 dat n = Inr ?s"
    using assms by (rule base64_eq)
  have st: "standard_base64 ?xs = c_string ?s @ replicate ((3 - nat n mod 3) mod 3) CHR ''=''"
    if "\<forall>i < nat n. i mod 3 \<noteq> 0 \<longrightarrow> \<not> bit (dat ! i) 7"
  proof -
    have "\<forall>i < length ?xs. i mod 3 \<noteq> 0 \<longrightarrow> \<not> bit (?xs ! i) 7"
      using that l by simp
    from groups_standard [OF this] show ?thesis
      unfolding l .
  qed
  show ?thesis
  proof (intro exI [of _ ?s] conjI impI)
    show "base64 dat n = Inr ?s"
      by (rule e)
    show "last ?s = CHR 0x00"
      by simp
    show "set (c_string ?s) \<subseteq> set base64_digits"
      by (rule groups_alphabet)
    show "length (c_string ?s) = (4 * nat n + 2) div 3"
      using groups_length [of ?xs] unfolding l .
    assume "\<forall>i < nat n. i mod 3 \<noteq> 0 \<longrightarrow> \<not> bit (dat ! i) 7"
    then show "standard_base64 ?xs = c_string ?s @ replicate ((3 - nat n mod 3) mod 3) CHR ''=''"
      by (rule st)
  qed
qed

theorem base64_unpadded_witness:
  "base64 [0x4D, 0x61, 0x6E] 2 = Inr [CHR ''T'', CHR ''W'', CHR ''E'', CHR 0x00] \<and>
   c_string [CHR ''T'', CHR ''W'', CHR ''E'', CHR 0x00] = ''TWE'' \<and>
   standard_base64 [0x4D, 0x61] = ''TWE='' \<and>
   set ''TWE'' \<subseteq> set base64_digits \<and>
   base64 [0x4D, 0x61, 0x6E] 3 = Inr [CHR ''T'', CHR ''W'', CHR ''F'', CHR ''u'', CHR 0x00] \<and>
   standard_base64 [0x4D, 0x61, 0x6E] = ''TWFu''"
proof -
  have b2: "\<forall>i < nat 2. i mod 3 \<noteq> 0 \<longrightarrow> \<not> bit ([0x4D, 0x61, 0x6E :: 8 word] ! i) 7"
  proof (intro allI impI)
    fix i :: nat assume "i < nat 2" "i mod 3 \<noteq> 0"
    then have "i = 1"
      by (cases i) simp_all
    then show "\<not> bit ([0x4D, 0x61, 0x6E :: 8 word] ! i) 7"
      by simp
  qed
  have b3: "\<forall>i < nat 3. i mod 3 \<noteq> 0 \<longrightarrow> \<not> bit ([0x4D, 0x61, 0x6E :: 8 word] ! i) 7"
  proof (intro allI impI)
    fix i :: nat assume "i < nat 3" "i mod 3 \<noteq> 0"
    then have "i = 1 \<or> i = 2"
      by (cases i) auto
    then show "\<not> bit ([0x4D, 0x61, 0x6E :: 8 word] ! i) 7"
      by (elim disjE) simp_all
  qed
  have v: "base64 [0x4D, 0x61, 0x6E] 2 = Inr [CHR ''T'', CHR ''W'', CHR ''E'', CHR 0x00]"
    "base64 [0x4D, 0x61, 0x6E] 3 = Inr [CHR ''T'', CHR ''W'', CHR ''F'', CHR ''u'', CHR 0x00]"
    by (simp_all add: base64_def Let_def digit64_def base64_digits_def c_div_def)
  have c: "c_string [CHR ''T'', CHR ''W'', CHR ''E'', CHR 0x00] = ''TWE''"
    "c_string [CHR ''T'', CHR ''W'', CHR ''F'', CHR ''u'', CHR 0x00] = ''TWFu''"
    by (simp_all add: c_string_def)
  from base64_unpadded [of 2 "[0x4D, 0x61, 0x6E]"]
  obtain s where s: "base64 [0x4D, 0x61, 0x6E] 2 = Inr s"
    "set (c_string s) \<subseteq> set base64_digits"
    "(\<forall>i < nat 2. i mod 3 \<noteq> 0 \<longrightarrow> \<not> bit ([0x4D, 0x61, 0x6E :: 8 word] ! i) 7) \<longrightarrow>
     standard_base64 (take (nat 2) [0x4D, 0x61, 0x6E]) =
       c_string s @ replicate ((3 - nat 2 mod 3) mod 3) CHR ''=''"
    by auto
  from s(1) v(1) have s': "c_string s = ''TWE''"
    using c(1) by simp
  have 1: "set ''TWE'' \<subseteq> set base64_digits"
    using s(2) unfolding s' .
  from s(3) b2 have "standard_base64 (take (nat 2) [0x4D, 0x61, 0x6E]) =
       ''TWE'' @ replicate ((3 - nat 2 mod 3) mod 3) CHR ''=''"
    unfolding s' by blast
  then have 2: "standard_base64 [0x4D, 0x61] = ''TWE=''"
    by simp
  from base64_unpadded [of 3 "[0x4D, 0x61, 0x6E]"]
  obtain t where t: "base64 [0x4D, 0x61, 0x6E] 3 = Inr t"
    "(\<forall>i < nat 3. i mod 3 \<noteq> 0 \<longrightarrow> \<not> bit ([0x4D, 0x61, 0x6E :: 8 word] ! i) 7) \<longrightarrow>
     standard_base64 (take (nat 3) [0x4D, 0x61, 0x6E]) =
       c_string t @ replicate ((3 - nat 3 mod 3) mod 3) CHR ''=''"
    by auto
  from t(1) v(2) have t': "c_string t = ''TWFu''"
    using c(2) by simp
  from t(2) b3 have "standard_base64 (take (nat 3) [0x4D, 0x61, 0x6E]) =
       ''TWFu'' @ replicate ((3 - nat 3 mod 3) mod 3) CHR ''=''"
    unfolding t' by blast
  then have 3: "standard_base64 [0x4D, 0x61, 0x6E] = ''TWFu''"
    by simp
  from v c(1) 1 2 3 show ?thesis
    by (intro conjI)
qed


end
